theory Spec2Isabelle
  imports Main "HOL-Library.Multiset" "HOL-Library.Word"
begin


section \<open>Data model\<close>

text \<open>
  The repository holds two versions of \<^verbatim>\<open>cat_contig_kernel_impl\<close> (CatKernel.cpp):
  a parallel one that copies with \<^verbatim>\<open>std::memcpy\<close> under \<^verbatim>\<open>at::parallel_for\<close>, and a
  sequential one that copies with a scalar loop or \<^verbatim>\<open>vec256::map\<close>.

  Memory is a store from element addresses to element values. Pointers are typed
  \<^verbatim>\<open>scalar_t*\<close> in the source, so an address counts elements of \<^verbatim>\<open>scalar_t\<close>, and
  \<^verbatim>\<open>memcpy(dst, src, n * sizeof(scalar_t))\<close> moves \<open>n\<close> elements. An element value is
  the bit pattern of one \<^verbatim>\<open>scalar_t\<close>; the element type is a type variable.

  Values of type \<^verbatim>\<open>int64_t\<close> are integers: sizes, strides and element counts of a tensor
  that fits an address space stay far below \<open>2^63\<close>. The loop counter of the sequential
  kernel is declared \<^verbatim>\<open>auto i = 0\<close>, which is a 32-bit \<^verbatim>\<open>int\<close>; incrementing it past
  \<open>INT_MAX\<close> is undefined behaviour and is an error result of the model.
\<close>

datatype error = DivisionByZero | SignedOverflow

definition INT_MAX :: int where
  "INT_MAX = 2147483647"

text \<open>
  \<^verbatim>\<open>at::Tensor\<close> is declared outside the sources at hand; a tensor is the record of
  what its accessors return: \<^verbatim>\<open>numel()\<close>, \<^verbatim>\<open>size(dim)\<close>, \<^verbatim>\<open>stride(dim)\<close> and
  \<^verbatim>\<open>data_ptr<scalar_t>()\<close>.
\<close>

record tensor =
  t_numel :: int
  t_size :: "int \<Rightarrow> int"
  t_stride :: "int \<Rightarrow> int"
  t_data_ptr :: int

text \<open>\<^verbatim>\<open>struct InputMeta\<close> and its constructor.\<close>

record InputMeta =
  data_ptr :: int
  inner_size :: int

definition InputMeta_init :: "tensor \<Rightarrow> int \<Rightarrow> int \<Rightarrow> InputMeta" where
  "InputMeta_init t dim inner =
     \<lparr>data_ptr = t_data_ptr t, inner_size = t_size t dim * inner\<rparr>"

type_synonym 'a heap = "int \<Rightarrow> 'a"

text \<open>
  The kernels only move elements, and no address they compute depends on what memory
  holds. Each loop is therefore modelled by the sequence of memory operations it issues,
  in program order; \<open>exec\<close> replays a sequence on the store.
  \<^item> \<open>Memcpy dst src n\<close>: \<^verbatim>\<open>std::memcpy\<close> of \<open>n\<close> elements;
  \<^item> \<open>Assign dst src\<close>: the scalar assignment \<^verbatim>\<open>result_ptr[k] = input_ptr[k]\<close>;
  \<^item> \<open>VecCopy dst src n\<close>: one vector load of \<open>n\<close> lanes followed by one vector store
    of them, the lambda \<^verbatim>\<open>[](Vec x) { return x; }\<close> in between.

  \<^verbatim>\<open>memcpy\<close> on overlapping ranges is undefined; the model reads all elements before it
  writes, and the theorems about stores assume that no input overlaps the output. A
  negative count, which \<^verbatim>\<open>memcpy\<close> would receive as a huge \<^verbatim>\<open>size_t\<close>, copies nothing in
  the model; the preconditions exclude it.
\<close>

datatype mem_op = Memcpy int int int | Assign int int | VecCopy int int int

definition memcpy :: "int \<Rightarrow> int \<Rightarrow> int \<Rightarrow> 'a heap \<Rightarrow> 'a heap" where
  "memcpy dst src n h = (\<lambda>a. if dst \<le> a \<and> a < dst + n then h (src + (a - dst)) else h a)"

fun exec_op :: "mem_op \<Rightarrow> 'a heap \<Rightarrow> 'a heap" where
  "exec_op (Memcpy dst src n) h = memcpy dst src n h"
| "exec_op (Assign dst src) h = h(dst := h src)"
| "exec_op (VecCopy dst src n) h = memcpy dst src n h"

definition exec :: "mem_op list \<Rightarrow> 'a heap \<Rightarrow> 'a heap" where
  "exec ops h = fold exec_op ops h"

text \<open>The addresses an operation writes and reads, and where a written element comes from.\<close>

fun wr :: "mem_op \<Rightarrow> int set" where
  "wr (Memcpy dst src n) = {dst ..< dst + n}"
| "wr (Assign dst src) = {dst}"
| "wr (VecCopy dst src n) = {dst ..< dst + n}"

fun rd :: "mem_op \<Rightarrow> int set" where
  "rd (Memcpy dst src n) = {src ..< src + n}"
| "rd (Assign dst src) = {src}"
| "rd (VecCopy dst src n) = {src ..< src + n}"

fun src_addr :: "mem_op \<Rightarrow> int \<Rightarrow> int" where
  "src_addr (Memcpy dst src n) a = src + (a - dst)"
| "src_addr (Assign dst src) a = src"
| "src_addr (VecCopy dst src n) a = src + (a - dst)"

text \<open>The address an operation starts writing at.\<close>

fun dst_addr :: "mem_op \<Rightarrow> int" where
  "dst_addr (Memcpy d src n) = d"
| "dst_addr (Assign d src) = d"
| "dst_addr (VecCopy d src n) = d"

text \<open>The number of elements an operation moves.\<close>

fun elems :: "mem_op \<Rightarrow> int" where
  "elems (Memcpy dst src n) = n"
| "elems (Assign dst src) = 1"
| "elems (VecCopy dst src n) = n"

text \<open>
  Division of \<^verbatim>\<open>int64_t\<close> values in C++: a zero divisor is undefined behaviour (an error
  here), the quotient is truncated towards zero.
\<close>

definition cdiv :: "int \<Rightarrow> int \<Rightarrow> error + int" where
  "cdiv a b = (if b = 0 then Inl DivisionByZero else Inr (sgn a * sgn b * (\<bar>a\<bar> div \<bar>b\<bar>)))"

section \<open>The parallel kernel (memcpy under parallel\_for)\<close>

text \<open>The loop \<^verbatim>\<open>for (const auto& t : tensors)\<close> of \<^verbatim>\<open>loop_nd\<close>, for outer index \<open>i\<close>.\<close>

fun loop_nd_tensors :: "tensor list \<Rightarrow> int \<Rightarrow> int \<Rightarrow> int \<Rightarrow> mem_op list" where
  "loop_nd_tensors [] dim i output_ptr = []"
| "loop_nd_tensors (t # ts) dim i output_ptr =
     (let local_inner = t_size t dim * t_stride t dim;
          input_ptr = t_data_ptr t + i * local_inner
      in Memcpy output_ptr input_ptr local_inner
           # loop_nd_tensors ts dim i (output_ptr + local_inner))"

text \<open>The lambda \<^verbatim>\<open>loop_nd\<close>: \<^verbatim>\<open>for (auto i = start; i < end; ++i)\<close>, \<open>i\<close> an \<^verbatim>\<open>int64_t\<close>.\<close>

function loop_nd :: "tensor \<Rightarrow> tensor list \<Rightarrow> int \<Rightarrow> int \<Rightarrow> int \<Rightarrow> int \<Rightarrow> mem_op list" where
  "loop_nd result tensors dim output_stride start end' =
     (if start < end' then
        loop_nd_tensors tensors dim start (t_data_ptr result + start * output_stride)
          @ loop_nd result tensors dim output_stride (start + 1) end'
      else [])"
  by pat_completeness auto
termination
  by (relation "measure (\<lambda>(result, tensors, dim, output_stride, start, end'). nat (end' - start))")
    auto

declare loop_nd.simps [simp del]

text \<open>
  Modelled from the spec: \<^verbatim>\<open>at::parallel_for\<close> (ATen/Parallel.h is not among the sources).
  It "partitions the range into contiguous sub-ranges ... and executes each sub-range as an
  independent unit"; which sub-ranges, and in which order they take effect, is the
  scheduler's choice, the parameter \<open>sched\<close>.
\<close>

type_synonym scheduler = "int \<Rightarrow> int \<Rightarrow> int \<Rightarrow> (int \<times> int) list"

definition parallel_for ::
  "scheduler \<Rightarrow> int \<Rightarrow> int \<Rightarrow> int \<Rightarrow> (int \<Rightarrow> int \<Rightarrow> mem_op list) \<Rightarrow> mem_op list" where
  "parallel_for sched begin end' grain_size f =
     concat (map (\<lambda>(s, e). f s e) (sched begin end' grain_size))"

text \<open>
  \<^verbatim>\<open>cat_contig_kernel_impl\<close>, parallel version. \<^verbatim>\<open>at::internal::GRAIN_SIZE\<close> is a constant
  declared outside the sources at hand and is a parameter.
\<close>

definition cat_contig_kernel_impl_memcpy ::
  "int \<Rightarrow> scheduler \<Rightarrow> tensor \<Rightarrow> tensor list \<Rightarrow> int \<Rightarrow> 'a heap \<Rightarrow> error + 'a heap" where
  "cat_contig_kernel_impl_memcpy GRAIN_SIZE sched result tensors dim h =
     (case cdiv (t_numel result) (t_size result dim * t_stride result dim) of
        Inl e \<Rightarrow> Inl e
      | Inr outer \<Rightarrow>
          (let output_stride = t_stride result dim * t_size result dim in
           case cdiv GRAIN_SIZE output_stride of
             Inl e \<Rightarrow> Inl e
           | Inr adjusted_grain_size \<Rightarrow>
               Inr (exec (parallel_for sched 0 outer adjusted_grain_size
                            (loop_nd result tensors dim output_stride)) h)))"

section \<open>The sequential kernel (scalar loop or vec256::map)\<close>

text \<open>The loop \<^verbatim>\<open>for (int64_t k = 0; k < local_inner; k++) result_ptr[k] = input_ptr[k];\<close>\<close>

function scalar_loop :: "int \<Rightarrow> int \<Rightarrow> int \<Rightarrow> int \<Rightarrow> mem_op list" where
  "scalar_loop result_ptr input_ptr local_inner k =
     (if k < local_inner then
        Assign (result_ptr + k) (input_ptr + k)
          # scalar_loop result_ptr input_ptr local_inner (k + 1)
      else [])"
  by pat_completeness auto
termination
  by (relation "measure (\<lambda>(result_ptr, input_ptr, local_inner, k). nat (local_inner - k))") auto

declare scalar_loop.simps [simp del]

text \<open>
  Modelled from the spec: \<^verbatim>\<open>vec256::map\<close> (ATen/cpu/vec256/functional.h is not among the
  sources). The spec: "a vectorized bulk move sized to \<^verbatim>\<open>inner_size[j]\<close> elements
  (implementation may further subdivide into full SIMD-width chunks plus a scalar
  remainder ...)". Full chunks of \<open>W\<close> lanes are moved while one still fits, then the
  remainder is moved as one partial vector. \<open>W\<close> is \<^verbatim>\<open>Vec::size()\<close>, a positive constant of
  the vector type; the test \<open>0 < W\<close> only makes the recursion well-founded.
\<close>

function vec_map :: "int \<Rightarrow> int \<Rightarrow> int \<Rightarrow> int \<Rightarrow> int \<Rightarrow> mem_op list" where
  "vec_map W output_data input_data sz d =
     (if 0 < W \<and> d + W \<le> sz then
        VecCopy (output_data + d) (input_data + d) W
          # vec_map W output_data input_data sz (d + W)
      else if sz - d > 0 then [VecCopy (output_data + d) (input_data + d) (sz - d)]
      else [])"
  by pat_completeness auto
termination
  by (relation "measure (\<lambda>(W, output_data, input_data, sz, d). nat (sz - d))") auto

declare vec_map.simps [simp del]

text \<open>
  The copy of one input contribution (the \<^verbatim>\<open>if (local_inner < Vec::size())\<close> statement):
  the scalar loop for a run shorter than one vector, \<^verbatim>\<open>vec256::map\<close> otherwise.
\<close>

definition copy_inner :: "int \<Rightarrow> int \<Rightarrow> int \<Rightarrow> int \<Rightarrow> mem_op list" where
  "copy_inner W result_ptr input_ptr local_inner =
     (if local_inner < W then scalar_loop result_ptr input_ptr local_inner 0
      else vec_map W result_ptr input_ptr local_inner 0)"

text \<open>
  The loop \<^verbatim>\<open>for (int64_t j = 0; j < ninputs; j++)\<close> over \<^verbatim>\<open>inputs[j]\<close>, for outer index
  \<open>i\<close>. It returns the operations issued and the advanced \<^verbatim>\<open>result_ptr\<close>, which the
  source carries over to the next outer index.
\<close>

fun seq_inputs :: "int \<Rightarrow> InputMeta list \<Rightarrow> int \<Rightarrow> int \<Rightarrow> mem_op list \<times> int" where
  "seq_inputs W [] i result_ptr = ([], result_ptr)"
| "seq_inputs W (m # ms) i result_ptr =
     (let local_inner = inner_size m;
          input_ptr = data_ptr m + i * local_inner;
          ops = copy_inner W result_ptr input_ptr local_inner;
          (rest, p) = seq_inputs W ms i (result_ptr + local_inner)
      in (ops @ rest, p))"

text \<open>
  The loop \<^verbatim>\<open>for (auto i = 0; i < outer; ++i)\<close>. \<open>i\<close> is an \<^verbatim>\<open>int\<close>: the comparison with
  the \<^verbatim>\<open>int64_t outer\<close> is exact, the increment overflows at \<open>INT_MAX\<close>.
\<close>

function seq_outer :: "int \<Rightarrow> InputMeta list \<Rightarrow> int \<Rightarrow> int \<Rightarrow> int \<Rightarrow> error + mem_op list" where
  "seq_outer W inputs outer i result_ptr =
     (if i < outer then
        (case seq_inputs W inputs i result_ptr of
           (ops, p) \<Rightarrow>
             if i = INT_MAX then Inl SignedOverflow
             else (case seq_outer W inputs outer (i + 1) p of
                     Inl e \<Rightarrow> Inl e
                   | Inr rest \<Rightarrow> Inr (ops @ rest)))
      else Inr [])"
  by pat_completeness auto
termination
  by (relation "measure (\<lambda>(W, inputs, outer, i, result_ptr). nat (outer - i))") auto

declare seq_outer.simps [simp del]

text \<open>The vector of \<^verbatim>\<open>InputMeta\<close> records the sequential kernel builds from the inputs.\<close>

definition metas :: "tensor list \<Rightarrow> int \<Rightarrow> InputMeta list" where
  "metas tensors dim = map (\<lambda>tensor. InputMeta_init tensor dim (t_stride tensor dim)) tensors"

text \<open>\<^verbatim>\<open>cat_contig_kernel_impl\<close>, sequential version; \<open>W\<close> is \<^verbatim>\<open>Vec::size()\<close>.\<close>

definition cat_contig_kernel_impl_vec ::
  "int \<Rightarrow> tensor \<Rightarrow> tensor list \<Rightarrow> int \<Rightarrow> 'a heap \<Rightarrow> error + 'a heap" where
  "cat_contig_kernel_impl_vec W result tensors dim h =
     (case cdiv (t_numel result) (t_size result dim * t_stride result dim) of
        Inl e \<Rightarrow> Inl e
      | Inr outer \<Rightarrow>
          (let result_data = t_data_ptr result;
               inputs = map (\<lambda>tensor. InputMeta_init tensor dim (t_stride tensor dim)) tensors
           in case seq_outer W inputs outer 0 result_data of
                Inl e \<Rightarrow> Inl e
              | Inr ops \<Rightarrow> Inr (exec ops h)))"

section \<open>Preconditions\<close>

text \<open>
  The inner size of a tensor: extent times stride along the concatenation axis, the
  number of contiguous elements it contributes to one outer group.
\<close>

definition inner_of :: "tensor \<Rightarrow> int \<Rightarrow> int" where
  "inner_of t dim = t_size t dim * t_stride t dim"

text \<open>
  The preconditions the spec places on a call (sections 3, 4.1 and 4.2): the output group
  stride is positive and divides the element count of the output exactly, every input
  contributes a non-negative number of elements, the inner sizes sum up to the output
  group stride, and no input buffer overlaps the output buffer.
\<close>

definition valid_cat :: "tensor \<Rightarrow> tensor list \<Rightarrow> int \<Rightarrow> bool" where
  "valid_cat result tensors dim \<longleftrightarrow>
     0 < inner_of result dim \<and> 0 \<le> t_numel result \<and>
     inner_of result dim dvd t_numel result \<and>
     (\<forall>t \<in> set tensors. 0 \<le> inner_of t dim) \<and>
     sum_list (map (\<lambda>t. inner_of t dim) tensors) = inner_of result dim \<and>
     (\<forall>t \<in> set tensors.
        t_data_ptr t + (t_numel result div inner_of result dim) * inner_of t dim
          \<le> t_data_ptr result
        \<or> t_data_ptr result + t_numel result \<le> t_data_ptr t)"

text \<open>
  The sub-ranges a scheduler hands out partition \<open>[b, e)\<close>: taken together they hold
  every index of the range exactly once (spec 4.2, step 2).
\<close>

definition is_partition :: "(int \<times> int) list \<Rightarrow> int \<Rightarrow> int \<Rightarrow> bool" where
  "is_partition cs b e \<longleftrightarrow> sort (concat (map (\<lambda>(s, t). [s..t - 1]) cs)) = [b..e - 1]"

text \<open>A scheduler that hands out a partition of every range it is given.\<close>

definition partitions :: "scheduler \<Rightarrow> bool" where
  "partitions sched \<longleftrightarrow> (\<forall>b e g. is_partition (sched b e g) b e)"

section \<open>Notions the statements use\<close>

text \<open>\<open>run h p n\<close>: the \<open>n\<close> contiguous elements of the store from address \<open>p\<close> on.\<close>

definition run :: "'a heap \<Rightarrow> int \<Rightarrow> int \<Rightarrow> 'a list" where
  "run h p n = map h [p..p + n - 1]"

text \<open>
  The concatenation, in input-list order, of each input's inner run for outer index \<open>i\<close>
  (spec, section 3).
\<close>

definition group_of :: "'a heap \<Rightarrow> tensor list \<Rightarrow> int \<Rightarrow> int \<Rightarrow> 'a list" where
  "group_of h tensors dim i =
     concat (map (\<lambda>t. run h (t_data_ptr t + i * inner_of t dim) (inner_of t dim)) tensors)"

text \<open>
  The offset of input \<open>j\<close> within an outer group: the inner sizes of the inputs before it,
  added up.
\<close>

definition offs :: "tensor list \<Rightarrow> int \<Rightarrow> nat \<Rightarrow> int" where
  "offs ts dim j = sum_list (map (\<lambda>t. inner_of t dim) (take j ts))"

text \<open>
  The copy the spec describes for outer index \<open>i\<close> and input \<open>j\<close> (4.2, step 3): from
  \<open>input_base[j] + i * inner_size[j]\<close> to the output cursor, which starts the group at
  \<open>output_base + i * output_group_stride\<close> and has advanced by the inner sizes of the
  inputs before \<open>j\<close>; \<open>inner_size[j]\<close> elements. \<open>memcpy_of\<close> is that copy as one
  \<^verbatim>\<open>memcpy\<close>, \<open>copy_of\<close> as the sequential kernel's scalar loop or vector move.
\<close>

definition memcpy_of :: "tensor \<Rightarrow> tensor list \<Rightarrow> int \<Rightarrow> int \<Rightarrow> int \<Rightarrow> nat \<Rightarrow> mem_op" where
  "memcpy_of result tensors dim output_stride i j =
     Memcpy (t_data_ptr result + i * output_stride + offs tensors dim j)
            (t_data_ptr (tensors ! j) + i * inner_of (tensors ! j) dim)
            (inner_of (tensors ! j) dim)"

definition copy_of ::
  "int \<Rightarrow> tensor \<Rightarrow> tensor list \<Rightarrow> int \<Rightarrow> int \<Rightarrow> int \<Rightarrow> nat \<Rightarrow> mem_op list" where
  "copy_of W result tensors dim output_stride i j =
     copy_inner W (t_data_ptr result + i * output_stride + offs tensors dim j)
            (t_data_ptr (tensors ! j) + i * inner_of (tensors ! j) dim)
            (inner_of (tensors ! j) dim)"

text \<open>\<open>writers ops a\<close>: how many operations of a sequence write the address \<open>a\<close>.\<close>

definition writers :: "mem_op list \<Rightarrow> int \<Rightarrow> nat" where
  "writers ops a = length (filter (\<lambda>x. a \<in> wr x) ops)"

text \<open>
  A set of operations is independent when distinct operations write disjoint addresses
  and no operation reads an address that one of them writes.
\<close>

definition indep :: "mem_op set \<Rightarrow> bool" where
  "indep S \<longleftrightarrow> (\<forall>x \<in> S. \<forall>y \<in> S. x \<noteq> y \<longrightarrow> wr x \<inter> wr y = {})
                \<and> (\<forall>x \<in> S. \<forall>y \<in> S. rd x \<inter> wr y = {})"

section \<open>Examples\<close>

text \<open>
  A C-contiguous tensor of a given shape at a given address (glossary: the stride along
  an axis is the product of the extents of the axes after it).
\<close>

definition contiguous :: "int list \<Rightarrow> int \<Rightarrow> tensor" where
  "contiguous shape p =
     \<lparr>t_numel = prod_list shape,
      t_size = (\<lambda>d. shape ! nat d),
      t_stride = (\<lambda>d. prod_list (drop (nat d + 1) shape)),
      t_data_ptr = p\<rparr>"

text \<open>
  The scenario of the spec: \<open>A = [[1,2],[3,4]]\<close> at address 0, \<open>B = [[5,6],[7,8]]\<close> at
  address 10, the \<open>2\<times>4\<close> output at address 20, concatenation along axis 1.
\<close>

definition exA :: tensor where "exA = contiguous [2, 2] 0"

definition exB :: tensor where "exB = contiguous [2, 2] 10"

definition exOut :: tensor where "exOut = contiguous [2, 4] 20"

definition exHeap :: "int heap" where
  "exHeap = (\<lambda>a. if 0 \<le> a \<and> a < 4 then a + 1 else if 10 \<le> a \<and> a < 14 then a - 5 else 0)"

text \<open>
  Three schedulers: one task for the whole range; one task per index, last first; and
  the partition the spec describes (4.2, step 2), contiguous sub-ranges of the grain size,
  the last one possibly shorter, in increasing order (a grain size below 1 counts as 1).
\<close>

definition sched_single :: scheduler where
  "sched_single b e g = (if b < e then [(b, e)] else [])"

definition sched_each_rev :: scheduler where
  "sched_each_rev b e g = rev (map (\<lambda>i. (i, i + 1)) [b..e - 1])"

function sched_grain :: scheduler where
  "sched_grain b e g =
     (if b < e then (b, min e (b + max 1 g)) # sched_grain (min e (b + max 1 g)) e g else [])"
  by pat_completeness auto
termination
  by (relation "measure (\<lambda>(b, e, g). nat (e - b))") auto

declare sched_grain.simps [simp del]

text \<open>An input that is empty along the axis, in front of \<open>B\<close>, and the \<open>2\<times>2\<close> output.\<close>

definition exEmpty :: tensor where "exEmpty = contiguous [2, 0] 0"

definition exOutB :: tensor where "exOutB = contiguous [2, 2] 20"

text \<open>
  A store of 32-bit patterns: \<open>A\<close> holds a quiet NaN (\<open>0x7FC00000\<close>), \<open>+Inf\<close>
  (\<open>0x7F800000\<close>), \<open>-Inf\<close> (\<open>0xFF800000\<close>) and \<open>-0.0\<close> (\<open>0x80000000\<close>); \<open>B\<close> holds a
  NaN with a payload (\<open>0x7FC00001\<close>), a signalling NaN (\<open>0x7F800001\<close>), the smallest
  denormal and \<open>1.0\<close> (\<open>0x3F800000\<close>).
\<close>

definition exHeapBits :: "32 word heap" where
  "exHeapBits = (\<lambda>a.
     if a = 0 then 2143289344 else if a = 1 then 2139095040
     else if a = 2 then 4286578688 else if a = 3 then 2147483648
     else if a = 10 then 2143289345 else if a = 11 then 2139095041
     else if a = 12 then 1 else if a = 13 then 1065353216 else 0)"

text \<open>An input of \<open>2^31\<close> rows of one element, and the output of the same shape behind it.\<close>

definition exBigIn :: tensor where "exBigIn = contiguous [2147483648, 1] 0"

definition exBigOut :: tensor where "exBigOut = contiguous [2147483648, 1] 2147483648"

section \<open>Division and error results\<close>

lemma cdiv_pos: "0 < b \<Longrightarrow> 0 \<le> a \<Longrightarrow> cdiv a b = Inr (a div b)"
  by (cases "a = 0") (simp_all add: cdiv_def)

lemma cdiv_zero: "cdiv a 0 = Inl DivisionByZero"
  by (simp add: cdiv_def)

lemma cdiv_nonzero: "b \<noteq> 0 \<Longrightarrow> \<exists>q. cdiv a b = Inr q"
  by (simp add: cdiv_def)

lemma div_mult_bounds:
  fixes g S :: int
  assumes "0 < S"
  shows "g div S * S \<le> g" and "g < (g div S + 1) * S"
proof -
  have 1: "g div S * S + g mod S = g" by simp
  have 2: "0 \<le> g mod S" using assms by (rule pos_mod_sign)
  have 3: "g mod S < S" using assms by (rule pos_mod_bound)
  from 1 2 show "g div S * S \<le> g" by linarith
  have "(g div S + 1) * S = g div S * S + S" by (simp add: distrib_right)
  with 1 3 show "g < (g div S + 1) * S" by linarith
qed

lemma div_in_range:
  fixes S :: int
  assumes "0 < S" and "0 \<le> x" and "x < outer * S"
  shows "0 \<le> x div S" and "x div S < outer"
proof -
  show "0 \<le> x div S" using assms by (simp add: pos_imp_zdiv_nonneg_iff)
  show "x div S < outer"
  proof (rule ccontr)
    assume "\<not> x div S < outer"
    then have "outer * S \<le> x div S * S" using assms(1) by (intro mult_right_mono) simp_all
    with div_mult_bounds(1) [OF assms(1), of x] assms(3) show False by linarith
  qed
qed

lemma seq_outer_error: "seq_outer W inputs outer i p = Inl e \<Longrightarrow> e = SignedOverflow"
proof (induction W inputs outer i p rule: seq_outer.induct)
  case (1 W inputs outer i p)
  show ?case
  proof (cases "i < outer")
    case False
    with "1.prems" show ?thesis by (simp add: seq_outer.simps)
  next
    case True
    obtain ops q where sq: "seq_inputs W inputs i p = (ops, q)" by (cases "seq_inputs W inputs i p")
    show ?thesis
    proof (cases "i = INT_MAX")
      case True
      with \<open>i < outer\<close> sq "1.prems" show ?thesis
        by (subst (asm) seq_outer.simps) simp
    next
      case False
      with \<open>i < outer\<close> sq "1.prems" have "seq_outer W inputs outer (i + 1) q = Inl e"
        by (subst (asm) seq_outer.simps) (simp split: sum.splits)
      with "1.IH" [OF True sq [symmetric] False] show ?thesis by simp
    qed
  qed
qed

lemma kernel_memcpy_zero:
  assumes "t_size result dim * t_stride result dim = 0"
  shows "cat_contig_kernel_impl_memcpy GS sched result tensors dim h = Inl DivisionByZero"
  unfolding cat_contig_kernel_impl_memcpy_def assms cdiv_zero by simp

lemma kernel_vec_zero:
  assumes "t_size result dim * t_stride result dim = 0"
  shows "cat_contig_kernel_impl_vec W result tensors dim h = Inl DivisionByZero"
  unfolding cat_contig_kernel_impl_vec_def assms cdiv_zero by simp

lemma kernel_memcpy_nonzero:
  assumes "t_size result dim * t_stride result dim \<noteq> 0"
  shows "\<exists>h'. cat_contig_kernel_impl_memcpy GS sched result tensors dim h = Inr h'"
proof -
  obtain q where q: "cdiv (t_numel result) (t_size result dim * t_stride result dim) = Inr q"
    using assms cdiv_nonzero by blast
  from assms have "t_stride result dim * t_size result dim \<noteq> 0" by (simp add: mult.commute)
  then obtain g where g: "cdiv GS (t_stride result dim * t_size result dim) = Inr g"
    using cdiv_nonzero by blast
  show ?thesis unfolding cat_contig_kernel_impl_memcpy_def q Let_def g by simp
qed

lemma kernel_vec_nonzero:
  assumes "t_size result dim * t_stride result dim \<noteq> 0"
  shows "cat_contig_kernel_impl_vec W result tensors dim h \<noteq> Inl DivisionByZero"
proof -
  obtain q where q: "cdiv (t_numel result) (t_size result dim * t_stride result dim) = Inr q"
    using assms cdiv_nonzero by blast
  show ?thesis unfolding cat_contig_kernel_impl_vec_def q Let_def
    using seq_outer_error by (fastforce split: sum.splits)
qed

section \<open>Replaying operations\<close>

lemma exec_Nil [simp]: "exec [] h = h"
  by (simp add: exec_def)

lemma exec_Cons [simp]: "exec (x # xs) h = exec xs (exec_op x h)"
  by (simp add: exec_def)

lemma exec_append [simp]: "exec (xs @ ys) h = exec ys (exec xs h)"
  by (simp add: exec_def)

lemma concat_all_Nil: "(\<And>x. x \<in> set xss \<Longrightarrow> x = []) \<Longrightarrow> concat xss = []"
  by (induction xss) auto

lemma concat_map_Nil: "concat (map (\<lambda>x. []) xs) = []"
  by (induction xs) simp_all

lemma exec_concat_cong:
  "(\<And>x (h :: 'a heap). x \<in> set xs \<Longrightarrow> exec (f x) h = exec (g x) h) \<Longrightarrow>
   exec (concat (map f xs)) (h :: 'a heap) = exec (concat (map g xs)) h"
proof (induction xs arbitrary: h)
  case Nil
  show ?case by simp
next
  case (Cons y ys)
  have a: "exec (f y) h = exec (g y) h" using Cons.prems [of y h] by simp
  have b: "exec (concat (map f ys)) h' = exec (concat (map g ys)) h'" for h' :: "'a heap"
  proof (rule Cons.IH)
    fix x and k :: "'a heap"
    assume "x \<in> set ys"
    then show "exec (f x) k = exec (g x) k" using Cons.prems [of x k] by simp
  qed
  show ?case by (simp add: a b)
qed

lemma exec_op_written: "a \<in> wr x \<Longrightarrow> exec_op x h a = h (src_addr x a)"
  by (cases x) (auto simp: memcpy_def)

lemma exec_op_frame: "a \<notin> wr x \<Longrightarrow> exec_op x h a = h a"
  by (cases x) (auto simp: memcpy_def)

lemma src_addr_rd: "a \<in> wr x \<Longrightarrow> src_addr x a \<in> rd x"
  by (cases x) auto

lemma exec_frame: "(\<And>x. x \<in> set xs \<Longrightarrow> a \<notin> wr x) \<Longrightarrow> exec xs h a = h a"
  by (induction xs arbitrary: h) (auto simp: exec_op_frame)

lemma indep_subset: "indep S \<Longrightarrow> T \<subseteq> S \<Longrightarrow> indep T"
  unfolding indep_def by blast

lemma exec_written:
  "indep (set xs) \<Longrightarrow> x \<in> set xs \<Longrightarrow> a \<in> wr x \<Longrightarrow> exec xs h a = h (src_addr x a)"
proof (induction xs arbitrary: h)
  case Nil
  then show ?case by simp
next
  case (Cons y ys)
  have ind: "indep (set ys)"
    using Cons.prems(1) by (rule indep_subset) auto
  have src: "src_addr x a \<notin> wr y"
    using Cons.prems src_addr_rd [OF Cons.prems(3)] unfolding indep_def
    by (metis disjoint_iff list.set_intros(1))
  show ?case
  proof (cases "x \<in> set ys")
    case True
    have "exec ys (exec_op y h) a = exec_op y h (src_addr x a)"
      by (rule Cons.IH [OF ind True Cons.prems(3)])
    also have "\<dots> = h (src_addr x a)"
      by (rule exec_op_frame [OF src])
    finally show ?thesis by simp
  next
    case False
    with Cons.prems(2) have xy: "x = y" by simp
    have "\<And>z. z \<in> set ys \<Longrightarrow> a \<notin> wr z"
    proof
      fix z assume z: "z \<in> set ys" and az: "a \<in> wr z"
      from z False have "z \<noteq> x" by auto
      with Cons.prems(1,2) z have "wr x \<inter> wr z = {}"
        unfolding indep_def by (metis list.set_intros(2))
      with Cons.prems(3) az show False by blast
    qed
    then have "exec ys (exec_op y h) a = exec_op y h a"
      by (rule exec_frame)
    also have "\<dots> = h (src_addr x a)"
      using Cons.prems(3) xy by (simp add: exec_op_written)
    finally show ?thesis by simp
  qed
qed

lemma exec_set_cong:
  assumes "indep (set xs)" and "set ys = set xs"
  shows "exec ys h = exec xs h"
proof
  fix a
  show "exec ys h a = exec xs h a"
  proof (cases "\<exists>x \<in> set xs. a \<in> wr x")
    case True
    then obtain x where x: "x \<in> set xs" "a \<in> wr x" by blast
    have "exec xs h a = h (src_addr x a)"
      by (rule exec_written [OF assms(1) x])
    moreover have "exec ys h a = h (src_addr x a)"
      using assms x by (intro exec_written) simp_all
    ultimately show ?thesis by simp
  next
    case False
    then have "exec xs h a = h a" by (intro exec_frame) blast
    moreover from False assms(2) have "exec ys h a = h a" by (intro exec_frame) blast
    ultimately show ?thesis by simp
  qed
qed

lemma exec_op_natural: "exec_op x (f \<circ> h) = f \<circ> exec_op x h"
  by (cases x) (auto simp: memcpy_def fun_eq_iff)

lemma exec_natural: "exec xs (f \<circ> h) = f \<circ> exec xs h"
  by (induction xs arbitrary: h) (simp_all add: exec_op_natural)

section \<open>Runs of the store\<close>

lemma run_Nil [simp]: "n \<le> 0 \<Longrightarrow> run h p n = []"
  by (simp add: run_def)

lemma length_run [simp]: "length (run h p n) = nat n"
  by (simp add: run_def)

lemma nth_run: "int k < n \<Longrightarrow> run h p n ! k = h (p + int k)"
  by (simp add: run_def)

lemma run_cong:
  assumes "\<And>k. 0 \<le> k \<Longrightarrow> k < n \<Longrightarrow> h' (q + k) = h (s + k)"
  shows "run h' q n = run h s n"
proof (rule nth_equalityI)
  show "length (run h' q n) = length (run h s n)" by simp
next
  fix k assume "k < length (run h' q n)"
  then have k: "int k < n" by simp
  then show "run h' q n ! k = run h s n ! k"
    using assms [of "int k"] by (simp add: nth_run)
qed

lemma run_append:
  assumes "0 \<le> m" and "0 \<le> n"
  shows "run h p (m + n) = run h p m @ run h (p + m) n"
proof (cases "n = 0")
  case True
  then show ?thesis by simp
next
  case False
  with assms have "p \<le> p + m" "p + m \<le> p + (m + n) - 1" by simp_all
  then have "[p..p + (m + n) - 1] = [p..p + m - 1] @ [p + m..p + (m + n) - 1]"
    by (rule upto_split1)
  then show ?thesis by (simp add: run_def add.assoc)
qed

lemma run_concat_groups:
  assumes "0 \<le> S"
  shows "run h p (int m * S) = concat (map (\<lambda>i. run h (p + i * S) S) [0..int m - 1])"
proof (induction m)
  case 0
  then show ?case by simp
next
  case (Suc m)
  have "[0..int (Suc m) - 1] = [0..int m - 1] @ [int m]"
    using upto_rec2 [of 0 "int m"] by simp
  moreover have "int (Suc m) * S = int m * S + S" by (simp add: distrib_right)
  moreover have "run h p (int m * S + S) = run h p (int m * S) @ run h (p + int m * S) S"
    using assms by (intro run_append) simp_all
  ultimately show ?case by (simp add: Suc.IH)
qed

section \<open>Offsets within an outer group\<close>

lemma offs_0 [simp]: "offs ts dim 0 = 0"
  by (simp add: offs_def)

lemma offs_Suc_Cons [simp]: "offs (t # ts) dim (Suc j) = inner_of t dim + offs ts dim j"
  by (simp add: offs_def)

lemma offs_Suc: "j < length ts \<Longrightarrow> offs ts dim (Suc j) = offs ts dim j + inner_of (ts ! j) dim"
  by (simp add: offs_def take_Suc_conv_app_nth)

lemma offs_length: "offs ts dim (length ts) = sum_list (map (\<lambda>t. inner_of t dim) ts)"
  by (simp add: offs_def)

lemma sum_inner_offs: "sum_list (map (\<lambda>t. inner_of t dim) ts) = offs ts dim (length ts)"
  by (simp add: offs_def)

lemma offs_mono:
  assumes "\<forall>t \<in> set ts. 0 \<le> inner_of t dim" and "j \<le> k" and "k \<le> length ts"
  shows "offs ts dim j \<le> offs ts dim k"
proof -
  have "take k ts = take j ts @ drop j (take k ts)"
    using assms(2) by (metis append_take_drop_id min.absorb2 take_take min.commute)
  then have "offs ts dim k = offs ts dim j + sum_list (map (\<lambda>t. inner_of t dim) (drop j (take k ts)))"
    unfolding offs_def by (metis map_append sum_list_append)
  moreover have "0 \<le> sum_list (map (\<lambda>t. inner_of t dim) (drop j (take k ts)))"
  proof (rule sum_list_nonneg)
    fix x assume "x \<in> set (map (\<lambda>t. inner_of t dim) (drop j (take k ts)))"
    then obtain t where "t \<in> set (drop j (take k ts))" "x = inner_of t dim" by auto
    moreover then have "t \<in> set ts" by (meson in_set_dropD in_set_takeD)
    ultimately show "0 \<le> x" using assms(1) by simp
  qed
  ultimately show ?thesis by simp
qed

lemma offs_nonneg:
  "\<forall>t \<in> set ts. 0 \<le> inner_of t dim \<Longrightarrow> k \<le> length ts \<Longrightarrow> 0 \<le> offs ts dim k"
  using offs_mono [of ts dim 0 k] by simp

lemma offs_bounds:
  assumes "\<forall>t \<in> set ts. 0 \<le> inner_of t dim" and "j < length ts"
  shows "0 \<le> offs ts dim j"
    and "offs ts dim j + inner_of (ts ! j) dim \<le> offs ts dim (length ts)"
proof -
  show "0 \<le> offs ts dim j" using assms by (intro offs_nonneg) simp_all
  have "offs ts dim (Suc j) \<le> offs ts dim (length ts)"
    using assms by (intro offs_mono) simp_all
  then show "offs ts dim j + inner_of (ts ! j) dim \<le> offs ts dim (length ts)"
    using assms(2) by (simp add: offs_Suc)
qed

lemma offs_apart:
  assumes "\<forall>t \<in> set ts. 0 \<le> inner_of t dim" and "j < j'" and "j' \<le> length ts"
  shows "offs ts dim j + inner_of (ts ! j) dim \<le> offs ts dim j'"
proof -
  have "offs ts dim (Suc j) \<le> offs ts dim j'"
    using assms by (intro offs_mono) simp_all
  then show ?thesis using assms by (simp add: offs_Suc)
qed

lemma offs_locate:
  "0 \<le> r \<Longrightarrow> r < offs ts dim k \<Longrightarrow> k \<le> length ts \<Longrightarrow>
   \<exists>j<k. offs ts dim j \<le> r \<and> r < offs ts dim j + inner_of (ts ! j) dim"
proof (induction k)
  case 0
  then show ?case by simp
next
  case (Suc k)
  show ?case
  proof (cases "r < offs ts dim k")
    case True
    with Suc obtain j where "j < k" "offs ts dim j \<le> r" "r < offs ts dim j + inner_of (ts ! j) dim"
      by auto
    then show ?thesis using less_Suc_eq by blast
  next
    case False
    with Suc.prems have "offs ts dim k \<le> r" "r < offs ts dim k + inner_of (ts ! k) dim"
      by (simp_all add: offs_Suc)
    then show ?thesis by blast
  qed
qed

lemma group_union:
  assumes "\<forall>t \<in> set ts. 0 \<le> inner_of t dim"
  shows "(\<Union>j<length ts. {p + offs ts dim j ..< p + offs ts dim j + inner_of (ts ! j) dim})
       = {p ..< p + offs ts dim (length ts)}"
proof (rule set_eqI, rule iffI)
  fix a
  assume "a \<in> (\<Union>j<length ts. {p + offs ts dim j ..< p + offs ts dim j + inner_of (ts ! j) dim})"
  then obtain j where j: "j < length ts" "p + offs ts dim j \<le> a"
    "a < p + offs ts dim j + inner_of (ts ! j) dim" by auto
  from offs_bounds [OF assms j(1)] j(2,3) show "a \<in> {p ..< p + offs ts dim (length ts)}"
    by simp
next
  fix a
  assume "a \<in> {p ..< p + offs ts dim (length ts)}"
  then have "0 \<le> a - p" "a - p < offs ts dim (length ts)" by simp_all
  from offs_locate [OF this order_refl] obtain j where "j < length ts"
    "offs ts dim j \<le> a - p" "a - p < offs ts dim j + inner_of (ts ! j) dim" by blast
  then show "a \<in> (\<Union>j<length ts. {p + offs ts dim j ..< p + offs ts dim j + inner_of (ts ! j) dim})"
    by (intro UN_I [of j]) simp_all
qed

lemma run_concat_offs:
  assumes "\<forall>t \<in> set ts. 0 \<le> inner_of t dim"
  shows "run h p (offs ts dim (length ts)) =
     concat (map (\<lambda>j. run h (p + offs ts dim j) (inner_of (ts ! j) dim)) [0..<length ts])"
  using assms
proof (induction ts arbitrary: p)
  case Nil
  then show ?case by simp
next
  case (Cons t ts)
  have upt: "[0..<length (t # ts)] = 0 # map Suc [0..<length ts]"
    by (simp add: upt_conv_Cons map_Suc_upt del: upt_Suc)
  have nn: "0 \<le> inner_of t dim" "0 \<le> offs ts dim (length ts)"
    using Cons.prems offs_nonneg [of ts dim "length ts"] by simp_all
  have "run h p (offs (t # ts) dim (length (t # ts))) =
      run h p (inner_of t dim) @ run h (p + inner_of t dim) (offs ts dim (length ts))"
    using run_append [OF nn] by simp
  also have "run h (p + inner_of t dim) (offs ts dim (length ts)) =
      concat (map (\<lambda>j. run h (p + inner_of t dim + offs ts dim j) (inner_of (ts ! j) dim))
                [0..<length ts])"
    using Cons.prems by (intro Cons.IH) simp
  finally show ?case
    unfolding upt by (simp add: comp_def add.assoc)
qed

section \<open>The operations the parallel kernel issues\<close>

lemma loop_nd_tensors_map:
  "loop_nd_tensors ts dim i p =
     map (\<lambda>j. Memcpy (p + offs ts dim j) (t_data_ptr (ts ! j) + i * inner_of (ts ! j) dim)
                 (inner_of (ts ! j) dim)) [0..<length ts]"
proof (induction ts arbitrary: p)
  case Nil
  then show ?case by simp
next
  case (Cons t ts)
  have "[0..<length (t # ts)] = 0 # map Suc [0..<length ts]"
    by (simp add: upt_conv_Cons map_Suc_upt del: upt_Suc)
  then show ?case
    by (simp add: Cons.IH Let_def inner_of_def comp_def add.assoc)
qed

lemma nth_loop_nd_tensors:
  "j < length ts \<Longrightarrow>
   loop_nd_tensors ts dim i p ! j =
     Memcpy (p + offs ts dim j) (t_data_ptr (ts ! j) + i * inner_of (ts ! j) dim)
       (inner_of (ts ! j) dim)"
  by (simp add: loop_nd_tensors_map)

lemma nth_loop_nd_tensors_memcpy_of:
  "j < length tensors \<Longrightarrow>
   loop_nd_tensors tensors dim i (t_data_ptr result + i * S) ! j
     = memcpy_of result tensors dim S i j"
  by (simp add: nth_loop_nd_tensors memcpy_of_def)

lemma loop_nd_concat:
  "loop_nd result tensors dim S s e =
     concat (map (\<lambda>i. loop_nd_tensors tensors dim i (t_data_ptr result + i * S)) [s..e - 1])"
proof (induction result tensors dim S s e rule: loop_nd.induct)
  case (1 result tensors dim S s e)
  show ?case
  proof (cases "s < e")
    case True
    then have "[s..e - 1] = s # [s + 1..e - 1]" by (simp add: upto_rec1)
    with True "1.IH" show ?thesis by (subst loop_nd.simps) simp
  next
    case False
    then show ?thesis by (subst loop_nd.simps) simp
  qed
qed

lemma loop_nd_closed:
  "loop_nd result tensors dim S s e =
     concat (map (\<lambda>i. map (memcpy_of result tensors dim S i) [0..<length tensors]) [s..e - 1])"
  unfolding memcpy_of_def by (simp add: loop_nd_concat loop_nd_tensors_map)

lemma set_loop_nd:
  "set (loop_nd result tensors dim S s e) =
     {memcpy_of result tensors dim S i j | i j. s \<le> i \<and> i < e \<and> j < length tensors}"
  unfolding loop_nd_closed by (auto, blast)

lemma loop_nd_empty: "loop_nd result [] dim S s e = []"
  by (simp add: loop_nd_closed concat_all_Nil)

lemma sum_elems_loop_nd_tensors:
  "sum_list (map elems (loop_nd_tensors ts dim i p)) = offs ts dim (length ts)"
  by (induction ts arbitrary: p) (simp_all add: Let_def inner_of_def offs_def)

lemma sum_elems_loop_nd:
  "s \<le> e \<Longrightarrow>
   sum_list (map elems (loop_nd result ts dim S s e)) = (e - s) * offs ts dim (length ts)"
proof (induction result ts dim S s e rule: loop_nd.induct)
  case (1 result tensors dim S s e)
  show ?case
  proof (cases "s < e")
    case True
    with "1.IH" show ?thesis
      by (subst loop_nd.simps) (simp add: sum_elems_loop_nd_tensors algebra_simps)
  next
    case False
    with "1.prems" show ?thesis by (subst loop_nd.simps) simp
  qed
qed

section \<open>The operations the sequential kernel issues\<close>

lemma seq_inputs_closed:
  "seq_inputs W (metas ts dim) i p =
     (concat (map (\<lambda>j. copy_inner W (p + offs ts dim j)
                          (t_data_ptr (ts ! j) + i * inner_of (ts ! j) dim)
                          (inner_of (ts ! j) dim)) [0..<length ts]),
      p + offs ts dim (length ts))"
proof (induction ts arbitrary: p)
  case Nil
  then show ?case by (simp add: metas_def)
next
  case (Cons t ts)
  have upt: "[0..<length (t # ts)] = 0 # map Suc [0..<length ts]"
    by (simp add: upt_conv_Cons map_Suc_upt del: upt_Suc)
  have m: "metas (t # ts) dim = InputMeta_init t dim (t_stride t dim) # metas ts dim"
    by (simp add: metas_def)
  show ?case
    unfolding m upt
    by (simp add: Cons.IH Let_def InputMeta_init_def inner_of_def comp_def add.assoc)
qed

lemma fst_seq_inputs_Cons:
  "fst (seq_inputs W (m # ms) i p) =
     copy_inner W p (data_ptr m + i * inner_size m) (inner_size m)
       @ fst (seq_inputs W ms i (p + inner_size m))"
  by (simp add: Let_def split_def)

lemma seq_outer_closed:
  "outer \<le> INT_MAX \<Longrightarrow>
   seq_outer W (metas ts dim) outer i p =
     Inr (concat (map (\<lambda>k. fst (seq_inputs W (metas ts dim) k
                                   (p + (k - i) * offs ts dim (length ts)))) [i..outer - 1]))"
proof (induction W "metas ts dim" outer i p rule: seq_outer.induct)
  case (1 W outer i p)
  show ?case
  proof (cases "i < outer")
    case False
    then show ?thesis by (subst seq_outer.simps) simp
  next
    case True
    let ?T = "offs ts dim (length ts)"
    obtain ops q where sq: "seq_inputs W (metas ts dim) i p = (ops, q)"
      by (cases "seq_inputs W (metas ts dim) i p")
    then have q: "q = p + ?T" by (simp add: seq_inputs_closed)
    from True "1.prems" have ne: "i \<noteq> INT_MAX" by simp
    have IH: "seq_outer W (metas ts dim) outer (i + 1) q =
        Inr (concat (map (\<lambda>k. fst (seq_inputs W (metas ts dim) k (q + (k - (i + 1)) * ?T)))
                      [i + 1..outer - 1]))"
      by (rule "1.hyps" [OF True sq [symmetric] ne "1.prems"])
    have shift: "\<And>k. q + (k - (i + 1)) * ?T = p + (k - i) * ?T"
      by (simp add: q algebra_simps)
    from True have up: "[i..outer - 1] = i # [i + 1..outer - 1]" by (simp add: upto_rec1)
    show ?thesis
      by (subst seq_outer.simps) (simp add: True sq ne IH shift up)
  qed
qed

lemma seq_outer_overflow:
  "i \<le> INT_MAX \<Longrightarrow> INT_MAX < outer \<Longrightarrow> seq_outer W inputs outer i p = Inl SignedOverflow"
proof (induction W inputs outer i p rule: seq_outer.induct)
  case (1 W inputs outer i p)
  from "1.prems" have lt: "i < outer" by simp
  obtain ops q where sq: "seq_inputs W inputs i p = (ops, q)"
    by (cases "seq_inputs W inputs i p")
  show ?case
  proof (cases "i = INT_MAX")
    case True
    with lt sq show ?thesis by (subst seq_outer.simps) simp
  next
    case False
    with "1.prems" have "i + 1 \<le> INT_MAX" by simp
    then have "seq_outer W inputs outer (i + 1) q = Inl SignedOverflow"
      by (rule "1.IH" [OF lt sq [symmetric] False _ "1.prems"(2)])
    with lt sq False show ?thesis by (subst seq_outer.simps) simp
  qed
qed

lemma seq_outer_copy_of:
  assumes "outer \<le> INT_MAX" and "offs ts dim (length ts) = S"
  shows "seq_outer W (metas ts dim) outer 0 (t_data_ptr result) =
     Inr (concat (map (\<lambda>i. concat (map (copy_of W result ts dim S i) [0..<length ts]))
                    [0..outer - 1]))"
  unfolding copy_of_def using assms
  by (simp add: seq_outer_closed seq_inputs_closed mult.commute)

lemma seq_outer_empty:
  "seq_outer W [] outer 0 p = (if INT_MAX < outer then Inl SignedOverflow else Inr [])"
proof (cases "INT_MAX < outer")
  case True
  then show ?thesis by (simp add: seq_outer_overflow INT_MAX_def)
next
  case False
  then have "seq_outer W (metas [] dim) outer 0 p = Inr []"
    by (simp add: seq_outer_closed seq_inputs_closed concat_all_Nil)
  with False show ?thesis by (simp add: metas_def)
qed

section \<open>Scalar loop and vector move against memcpy\<close>

lemma exec_scalar_loop:
  "0 \<le> k \<Longrightarrow> {s ..< s + n} \<inter> {d ..< d + n} = {} \<Longrightarrow>
   exec (scalar_loop d s n k) h =
     (\<lambda>a. if d + k \<le> a \<and> a < d + n then h (s + (a - d)) else h a)"
proof (induction d s n k arbitrary: h rule: scalar_loop.induct)
  case (1 d s n k)
  show ?case
  proof (cases "k < n")
    case False
    then show ?thesis by (subst scalar_loop.simps) (auto simp: fun_eq_iff)
  next
    case True
    have IH: "exec (scalar_loop d s n (k + 1)) (h(d + k := h (s + k))) =
      (\<lambda>a. if d + (k + 1) \<le> a \<and> a < d + n then (h(d + k := h (s + k))) (s + (a - d))
            else (h(d + k := h (s + k))) a)"
      using "1.prems" by (intro "1.IH" [OF True]) simp_all
    have ne: "\<And>a. d + (k + 1) \<le> a \<Longrightarrow> a < d + n \<Longrightarrow> s + (a - d) \<noteq> d + k"
    proof
      fix a assume a: "d + (k + 1) \<le> a" "a < d + n" "s + (a - d) = d + k"
      with "1.prems"(1) True have "d + k \<in> {s ..< s + n}" "d + k \<in> {d ..< d + n}" by auto
      with "1.prems"(2) show False by blast
    qed
    show ?thesis
      by (subst scalar_loop.simps) (auto simp: True IH fun_eq_iff ne)
  qed
qed

lemma exec_vec_map:
  "0 \<le> k \<Longrightarrow> {s ..< s + n} \<inter> {d ..< d + n} = {} \<Longrightarrow>
   exec (vec_map W d s n k) h =
     (\<lambda>a. if d + k \<le> a \<and> a < d + n then h (s + (a - d)) else h a)"
proof (induction W d s n k arbitrary: h rule: vec_map.induct)
  case (1 W d s n k)
  show ?case
  proof (cases "0 < W \<and> k + W \<le> n")
    case False
    then show ?thesis
      by (subst vec_map.simps) (auto simp: fun_eq_iff memcpy_def)
  next
    case True
    let ?h1 = "memcpy (d + k) (s + k) W h"
    have IH: "exec (vec_map W d s n (k + W)) ?h1 =
      (\<lambda>a. if d + (k + W) \<le> a \<and> a < d + n then ?h1 (s + (a - d)) else ?h1 a)"
      using "1.prems" True by (intro "1.IH") simp_all
    have ne: "\<And>a. d + (k + W) \<le> a \<Longrightarrow> a < d + n \<Longrightarrow> ?h1 (s + (a - d)) = h (s + (a - d))"
    proof -
      fix a assume a: "d + (k + W) \<le> a" "a < d + n"
      with "1.prems"(1) True have "s + (a - d) \<in> {s ..< s + n}" by auto
      with "1.prems"(2) have "s + (a - d) \<notin> {d ..< d + n}" by blast
      with "1.prems"(1) True show "?h1 (s + (a - d)) = h (s + (a - d))"
        by (auto simp: memcpy_def)
    qed
    have step: "exec (vec_map W d s n k) h = exec (vec_map W d s n (k + W)) ?h1"
      by (subst vec_map.simps) (simp add: True)
    show ?thesis
      unfolding step IH
    proof (rule ext)
      fix a
      show "(if d + (k + W) \<le> a \<and> a < d + n then ?h1 (s + (a - d)) else ?h1 a) =
            (if d + k \<le> a \<and> a < d + n then h (s + (a - d)) else h a)"
      proof (cases "d + (k + W) \<le> a \<and> a < d + n")
        case True
        with ne [of a] \<open>0 < W \<and> k + W \<le> n\<close> show ?thesis by simp
      next
        case False
        with \<open>0 < W \<and> k + W \<le> n\<close> show ?thesis by (auto simp: memcpy_def)
      qed
    qed
  qed
qed

lemma exec_copy_inner:
  assumes "{s ..< s + n} \<inter> {d ..< d + n} = {}"
  shows "exec (copy_inner W d s n) h = memcpy d s n h"
  unfolding copy_inner_def using assms
  by (simp add: exec_scalar_loop exec_vec_map memcpy_def)

lemma wr_scalar_loop:
  "0 \<le> k \<Longrightarrow> \<Union> (wr ` set (scalar_loop d s n k)) = {d + k ..< d + n}"
proof (induction d s n k rule: scalar_loop.induct)
  case (1 d s n k)
  show ?case
  proof (cases "k < n")
    case True
    with "1.prems" have "\<Union> (wr ` set (scalar_loop d s n (k + 1))) = {d + (k + 1) ..< d + n}"
      by (intro "1.IH") simp_all
    with True show ?thesis by (subst scalar_loop.simps) auto
  next
    case False
    then show ?thesis by (subst scalar_loop.simps) simp
  qed
qed

lemma wr_vec_map:
  "0 \<le> k \<Longrightarrow> \<Union> (wr ` set (vec_map W d s n k)) = {d + k ..< d + n}"
proof (induction W d s n k rule: vec_map.induct)
  case (1 W d s n k)
  show ?case
  proof (cases "0 < W \<and> k + W \<le> n")
    case True
    with "1.prems" have "\<Union> (wr ` set (vec_map W d s n (k + W))) = {d + (k + W) ..< d + n}"
      by (intro "1.IH") simp_all
    with True show ?thesis by (subst vec_map.simps) auto
  next
    case False
    then show ?thesis by (subst vec_map.simps) auto
  qed
qed

lemma wr_copy_inner: "\<Union> (wr ` set (copy_inner W d s n)) = {d ..< d + n}"
  unfolding copy_inner_def using wr_scalar_loop [of 0 d s n] wr_vec_map [of 0 W d s n]
  by simp

section \<open>Read and write regions under the preconditions\<close>

lemma valid_cat_stride: "valid_cat result tensors dim \<Longrightarrow> 0 < inner_of result dim"
  and valid_cat_inner: "valid_cat result tensors dim \<Longrightarrow> \<forall>t \<in> set tensors. 0 \<le> inner_of t dim"
  and valid_cat_sum:
    "valid_cat result tensors dim \<Longrightarrow> offs tensors dim (length tensors) = inner_of result dim"
  and valid_cat_apart:
    "valid_cat result tensors dim \<Longrightarrow> t \<in> set tensors \<Longrightarrow>
       t_data_ptr t + (t_numel result div inner_of result dim) * inner_of t dim
          \<le> t_data_ptr result
        \<or> t_data_ptr result + t_numel result \<le> t_data_ptr t"
  unfolding valid_cat_def by (simp_all add: sum_inner_offs)

lemma valid_cat_numel:
  assumes "valid_cat result tensors dim"
  shows "t_numel result div inner_of result dim * inner_of result dim = t_numel result"
    and "0 \<le> t_numel result div inner_of result dim"
proof -
  from assms have d: "inner_of result dim dvd t_numel result" and p: "0 < inner_of result dim"
    and n: "0 \<le> t_numel result"
    unfolding valid_cat_def by simp_all
  from d show "t_numel result div inner_of result dim * inner_of result dim = t_numel result"
    by simp
  from p n show "0 \<le> t_numel result div inner_of result dim"
    by (simp add: pos_imp_zdiv_nonneg_iff)
qed

lemma group_bounds:
  fixes S :: int
  assumes "0 \<le> S" and "0 \<le> i" and "i < outer"
  shows "0 \<le> i * S" and "i * S + S \<le> outer * S"
proof -
  show "0 \<le> i * S" using assms by simp
  have "(i + 1) * S \<le> outer * S" using assms by (intro mult_right_mono) simp_all
  then show "i * S + S \<le> outer * S" by (simp add: distrib_right)
qed

lemma group_apart:
  fixes S :: int
  assumes "0 \<le> S" and "i < i'"
  shows "i * S + S \<le> i' * S"
proof -
  have "(i + 1) * S \<le> i' * S" using assms by (intro mult_right_mono) simp_all
  then show ?thesis by (simp add: distrib_right)
qed

lemma wr_memcpy_of:
  "wr (memcpy_of result tensors dim S i j) =
     {t_data_ptr result + i * S + offs tensors dim j
        ..< t_data_ptr result + i * S + offs tensors dim j + inner_of (tensors ! j) dim}"
  by (simp add: memcpy_of_def)

lemma rd_memcpy_of:
  "rd (memcpy_of result tensors dim S i j) =
     {t_data_ptr (tensors ! j) + i * inner_of (tensors ! j) dim
        ..< t_data_ptr (tensors ! j) + i * inner_of (tensors ! j) dim + inner_of (tensors ! j) dim}"
  by (simp add: memcpy_of_def)

lemma wr_memcpy_of_group:
  assumes "valid_cat result tensors dim" and "j < length tensors"
  shows "wr (memcpy_of result tensors dim (inner_of result dim) i j) \<subseteq>
     {t_data_ptr result + i * inner_of result dim
        ..< t_data_ptr result + i * inner_of result dim + inner_of result dim}"
  using offs_bounds [OF valid_cat_inner [OF assms(1)] assms(2)] valid_cat_sum [OF assms(1)]
  unfolding wr_memcpy_of by auto

lemma group_output:
  assumes "valid_cat result tensors dim" and "0 \<le> i"
    and "i < t_numel result div inner_of result dim"
  shows "{t_data_ptr result + i * inner_of result dim
        ..< t_data_ptr result + i * inner_of result dim + inner_of result dim}
     \<subseteq> {t_data_ptr result ..< t_data_ptr result + t_numel result}"
proof -
  have "0 \<le> inner_of result dim" using valid_cat_stride [OF assms(1)] by simp
  from group_bounds [OF this assms(2,3)] valid_cat_numel(1) [OF assms(1)]
  show ?thesis by auto
qed

lemma wr_memcpy_of_output:
  assumes "valid_cat result tensors dim" and "j < length tensors" and "0 \<le> i"
    and "i < t_numel result div inner_of result dim"
  shows "wr (memcpy_of result tensors dim (inner_of result dim) i j) \<subseteq>
     {t_data_ptr result ..< t_data_ptr result + t_numel result}"
  using wr_memcpy_of_group [OF assms(1,2)] group_output [OF assms(1,3,4)] by blast

lemma rd_memcpy_of_input:
  assumes "valid_cat result tensors dim" and "j < length tensors" and "0 \<le> i"
    and "i < t_numel result div inner_of result dim"
  shows "rd (memcpy_of result tensors dim S i j) \<subseteq>
     {t_data_ptr (tensors ! j)
        ..< t_data_ptr (tensors ! j)
             + t_numel result div inner_of result dim * inner_of (tensors ! j) dim}"
proof -
  have "0 \<le> inner_of (tensors ! j) dim" using valid_cat_inner [OF assms(1)] assms(2) by simp
  from group_bounds [OF this assms(3,4)] show ?thesis unfolding rd_memcpy_of by auto
qed

lemma rd_wr_memcpy_of:
  assumes "valid_cat result tensors dim"
    and "j < length tensors" and "0 \<le> i" and "i < t_numel result div inner_of result dim"
    and "j' < length tensors" and "0 \<le> i'" and "i' < t_numel result div inner_of result dim"
  shows "rd (memcpy_of result tensors dim S i j)
     \<inter> wr (memcpy_of result tensors dim (inner_of result dim) i' j') = {}"
proof -
  have "tensors ! j \<in> set tensors" using assms(2) by simp
  from valid_cat_apart [OF assms(1) this]
    rd_memcpy_of_input [OF assms(1,2,3,4), of S] wr_memcpy_of_output [OF assms(1,5,6,7)]
  show ?thesis by fastforce
qed

lemma wr_wr_memcpy_of:
  assumes "valid_cat result tensors dim"
    and "j < length tensors" and "j' < length tensors" and "(i, j) \<noteq> (i', j')"
  shows "wr (memcpy_of result tensors dim (inner_of result dim) i j)
     \<inter> wr (memcpy_of result tensors dim (inner_of result dim) i' j') = {}"
proof -
  have S: "0 \<le> inner_of result dim" using valid_cat_stride [OF assms(1)] by simp
  note inner = valid_cat_inner [OF assms(1)]
  consider "i < i'" | "i' < i" | "i = i'" "j < j'" | "i = i'" "j' < j"
    using assms(4) by (cases "i = i'") (auto simp: neq_iff)
  then show ?thesis
  proof cases
    case 1
    from group_apart [OF S 1] wr_memcpy_of_group [OF assms(1,2), of i]
      wr_memcpy_of_group [OF assms(1,3), of i']
    show ?thesis by fastforce
  next
    case 2
    from group_apart [OF S 2] wr_memcpy_of_group [OF assms(1,2), of i]
      wr_memcpy_of_group [OF assms(1,3), of i']
    show ?thesis by fastforce
  next
    case 3
    from offs_apart [OF inner 3(2)] assms(3) show ?thesis
      unfolding wr_memcpy_of 3(1) by auto
  next
    case 4
    from offs_apart [OF inner 4(2)] assms(2) show ?thesis
      unfolding wr_memcpy_of 4(1) by auto
  qed
qed

lemma indep_loop_nd:
  assumes "valid_cat result tensors dim"
  shows "indep (set (loop_nd result tensors dim (inner_of result dim) 0
                      (t_numel result div inner_of result dim)))"
  unfolding indep_def set_loop_nd
proof (intro conjI ballI impI)
  fix x y
  assume "x \<in> {memcpy_of result tensors dim (inner_of result dim) i j | i j.
                 0 \<le> i \<and> i < t_numel result div inner_of result dim \<and> j < length tensors}"
     and "y \<in> {memcpy_of result tensors dim (inner_of result dim) i j | i j.
                 0 \<le> i \<and> i < t_numel result div inner_of result dim \<and> j < length tensors}"
  then obtain i j i' j' where
    x: "x = memcpy_of result tensors dim (inner_of result dim) i j"
      "0 \<le> i" "i < t_numel result div inner_of result dim" "j < length tensors" and
    y: "y = memcpy_of result tensors dim (inner_of result dim) i' j'"
      "0 \<le> i'" "i' < t_numel result div inner_of result dim" "j' < length tensors"
    by blast
  show "rd x \<inter> wr y = {}"
    unfolding x(1) y(1) by (rule rd_wr_memcpy_of [OF assms x(4,2,3) y(4,2,3)])
  assume "x \<noteq> y"
  with x(1) y(1) have "(i, j) \<noteq> (i', j')" by auto
  then show "wr x \<inter> wr y = {}"
    unfolding x(1) y(1) by (rule wr_wr_memcpy_of [OF assms x(4) y(4)])
qed

lemma output_located:
  assumes "valid_cat result tensors dim"
    and "t_data_ptr result \<le> a" and "a < t_data_ptr result + t_numel result"
  shows "\<exists>i j. 0 \<le> i \<and> i < t_numel result div inner_of result dim \<and> j < length tensors
           \<and> a \<in> wr (memcpy_of result tensors dim (inner_of result dim) i j)"
proof -
  let ?S = "inner_of result dim"
  let ?x = "a - t_data_ptr result"
  note S = valid_cat_stride [OF assms(1)]
  have x: "0 \<le> ?x" "?x < t_numel result div ?S * ?S"
    using assms(2,3) valid_cat_numel(1) [OF assms(1)] by simp_all
  note i = div_in_range [OF S x]
  have r: "0 \<le> ?x mod ?S" "?x mod ?S < offs tensors dim (length tensors)"
    using S valid_cat_sum [OF assms(1)] by simp_all
  from offs_locate [OF r order_refl] obtain j where j: "j < length tensors"
    "offs tensors dim j \<le> ?x mod ?S" "?x mod ?S < offs tensors dim j + inner_of (tensors ! j) dim"
    by blast
  have "?x = ?x div ?S * ?S + ?x mod ?S" by (rule div_mult_mod_eq [symmetric])
  with j(2,3) have "a \<in> wr (memcpy_of result tensors dim ?S (?x div ?S) j)"
    unfolding wr_memcpy_of by simp
  with i j(1) show ?thesis by blast
qed

section \<open>The store after the copy loop\<close>

lemma exec_loop_nd_at:
  assumes "valid_cat result tensors dim"
    and "0 \<le> i" and "i < t_numel result div inner_of result dim" and "j < length tensors"
    and "0 \<le> k" and "k < inner_of (tensors ! j) dim"
  shows "exec (loop_nd result tensors dim (inner_of result dim) 0
                 (t_numel result div inner_of result dim)) h
           (t_data_ptr result + i * inner_of result dim + offs tensors dim j + k)
         = h (t_data_ptr (tensors ! j) + i * inner_of (tensors ! j) dim + k)"
proof -
  let ?x = "memcpy_of result tensors dim (inner_of result dim) i j"
  let ?a = "t_data_ptr result + i * inner_of result dim + offs tensors dim j + k"
  have m: "?x \<in> set (loop_nd result tensors dim (inner_of result dim) 0
                 (t_numel result div inner_of result dim))"
    unfolding set_loop_nd using assms(2,3,4) by blast
  have w: "?a \<in> wr ?x"
    unfolding wr_memcpy_of using assms(5,6) by simp
  have "src_addr ?x ?a = t_data_ptr (tensors ! j) + i * inner_of (tensors ! j) dim + k"
    by (simp add: memcpy_of_def)
  with exec_written [OF indep_loop_nd [OF assms(1)] m w, of h] show ?thesis by simp
qed

lemma exec_loop_nd_frame:
  assumes "valid_cat result tensors dim"
    and "a \<notin> {t_data_ptr result ..< t_data_ptr result + t_numel result}"
  shows "exec (loop_nd result tensors dim (inner_of result dim) 0
                 (t_numel result div inner_of result dim)) h a = h a"
proof (rule exec_frame)
  fix x
  assume "x \<in> set (loop_nd result tensors dim (inner_of result dim) 0
                 (t_numel result div inner_of result dim))"
  then obtain i j where x: "x = memcpy_of result tensors dim (inner_of result dim) i j"
    "0 \<le> i" "i < t_numel result div inner_of result dim" "j < length tensors"
    unfolding set_loop_nd by blast
  from wr_memcpy_of_output [OF assms(1) x(4,2,3)] assms(2) show "a \<notin> wr x"
    unfolding x(1) by blast
qed

lemma exec_loop_nd_source:
  assumes "valid_cat result tensors dim"
    and "t_data_ptr result \<le> a" and "a < t_data_ptr result + t_numel result"
  shows "\<exists>j s. j < length tensors \<and> t_data_ptr (tensors ! j) \<le> s
      \<and> s < t_data_ptr (tensors ! j)
              + t_numel result div inner_of result dim * inner_of (tensors ! j) dim
      \<and> exec (loop_nd result tensors dim (inner_of result dim) 0
                 (t_numel result div inner_of result dim)) h a = h s"
proof -
  let ?S = "inner_of result dim"
  from output_located [OF assms] obtain i j where ij: "0 \<le> i" "i < t_numel result div ?S"
    "j < length tensors" "a \<in> wr (memcpy_of result tensors dim ?S i j)" by blast
  let ?x = "memcpy_of result tensors dim ?S i j"
  have m: "?x \<in> set (loop_nd result tensors dim ?S 0 (t_numel result div ?S))"
    unfolding set_loop_nd using ij(1,2,3) by blast
  have e: "exec (loop_nd result tensors dim ?S 0 (t_numel result div ?S)) h a = h (src_addr ?x a)"
    by (rule exec_written [OF indep_loop_nd [OF assms(1)] m ij(4)])
  have "src_addr ?x a \<in> rd ?x" by (rule src_addr_rd [OF ij(4)])
  with rd_memcpy_of_input [OF assms(1) ij(3,1,2), of ?S]
  have "t_data_ptr (tensors ! j) \<le> src_addr ?x a"
    "src_addr ?x a < t_data_ptr (tensors ! j) + t_numel result div ?S * inner_of (tensors ! j) dim"
    by auto
  with e ij(3) show ?thesis by blast
qed

lemma run_exec_loop_nd:
  assumes "valid_cat result tensors dim"
    and "0 \<le> i" and "i < t_numel result div inner_of result dim" and "j < length tensors"
  shows "run (exec (loop_nd result tensors dim (inner_of result dim) 0
                 (t_numel result div inner_of result dim)) h)
           (t_data_ptr result + i * inner_of result dim + offs tensors dim j)
           (inner_of (tensors ! j) dim)
         = run h (t_data_ptr (tensors ! j) + i * inner_of (tensors ! j) dim)
             (inner_of (tensors ! j) dim)"
  by (rule run_cong) (rule exec_loop_nd_at [OF assms])

lemma group_exec_loop_nd:
  assumes "valid_cat result tensors dim"
    and "0 \<le> i" and "i < t_numel result div inner_of result dim"
  shows "run (exec (loop_nd result tensors dim (inner_of result dim) 0
                 (t_numel result div inner_of result dim)) h)
           (t_data_ptr result + i * inner_of result dim) (inner_of result dim)
         = group_of h tensors dim i"
proof -
  let ?h' = "exec (loop_nd result tensors dim (inner_of result dim) 0
                 (t_numel result div inner_of result dim)) h"
  have "run ?h' (t_data_ptr result + i * inner_of result dim) (offs tensors dim (length tensors))
      = concat (map (\<lambda>j. run ?h' (t_data_ptr result + i * inner_of result dim + offs tensors dim j)
                            (inner_of (tensors ! j) dim)) [0..<length tensors])"
    by (rule run_concat_offs [OF valid_cat_inner [OF assms(1)]])
  also have "\<dots> = concat (map (\<lambda>j. run h (t_data_ptr (tensors ! j) + i * inner_of (tensors ! j) dim)
                            (inner_of (tensors ! j) dim)) [0..<length tensors])"
    using run_exec_loop_nd [OF assms] by (intro arg_cong [where f = concat] map_cong) simp_all
  also have "\<dots> = concat (map (\<lambda>t. run h (t_data_ptr t + i * inner_of t dim) (inner_of t dim))
                      (map (\<lambda>j. tensors ! j) [0..<length tensors]))"
    by (simp add: comp_def)
  also have "\<dots> = group_of h tensors dim i"
    unfolding group_of_def map_nth ..
  finally show ?thesis unfolding valid_cat_sum [OF assms(1)] .
qed

lemma whole_exec_loop_nd:
  assumes "valid_cat result tensors dim"
  shows "run (exec (loop_nd result tensors dim (inner_of result dim) 0
                 (t_numel result div inner_of result dim)) h)
           (t_data_ptr result) (t_numel result)
         = concat (map (group_of h tensors dim) [0..t_numel result div inner_of result dim - 1])"
proof -
  let ?h' = "exec (loop_nd result tensors dim (inner_of result dim) 0
                 (t_numel result div inner_of result dim)) h"
  let ?outer = "t_numel result div inner_of result dim"
  have S: "0 \<le> inner_of result dim" using valid_cat_stride [OF assms] by simp
  have o: "int (nat ?outer) = ?outer" using valid_cat_numel(2) [OF assms] by simp
  have "run ?h' (t_data_ptr result) (int (nat ?outer) * inner_of result dim)
      = concat (map (\<lambda>i. run ?h' (t_data_ptr result + i * inner_of result dim) (inner_of result dim))
                  [0..int (nat ?outer) - 1])"
    by (rule run_concat_groups [OF S])
  also have "map (\<lambda>i. run ?h' (t_data_ptr result + i * inner_of result dim) (inner_of result dim))
                  [0..int (nat ?outer) - 1]
      = map (group_of h tensors dim) [0..int (nat ?outer) - 1]"
  proof (rule map_cong [OF refl])
    fix i assume "i \<in> set [0..int (nat ?outer) - 1]"
    then have "0 \<le> i" "i < ?outer" unfolding o by simp_all
    then show "run ?h' (t_data_ptr result + i * inner_of result dim) (inner_of result dim)
        = group_of h tensors dim i"
      by (rule group_exec_loop_nd [OF assms])
  qed
  finally show ?thesis unfolding o valid_cat_numel(1) [OF assms] .
qed

section \<open>Schedulers\<close>

lemma is_partition_set:
  assumes "is_partition cs b e"
  shows "(\<Union>(s, t) \<in> set cs. {s ..< t}) = {b ..< e}"
proof -
  have "set (sort (concat (map (\<lambda>(s, t). [s..t - 1]) cs))) = set [b..e - 1]"
    using assms unfolding is_partition_def by simp
  then have "(\<Union>(s, t) \<in> set cs. {s .. t - 1}) = {b .. e - 1}"
    by (simp add: split_def)
  moreover have "\<And>s t :: int. {s .. t - 1} = {s ..< t}" by auto
  ultimately show ?thesis by simp
qed

lemma set_parallel_for:
  assumes "is_partition (sched b e g) b e"
  shows "set (parallel_for sched b e g (loop_nd result tensors dim S))
       = set (loop_nd result tensors dim S b e)"
proof -
  let ?cs = "sched b e g"
  note A = is_partition_set [OF assms]
  have "(\<Union>(s, t) \<in> set ?cs. set (loop_nd result tensors dim S s t))
      = set (loop_nd result tensors dim S b e)"
  proof (rule set_eqI, rule iffI)
    fix x
    assume "x \<in> (\<Union>(s, t) \<in> set ?cs. set (loop_nd result tensors dim S s t))"
    then obtain s t where st: "(s, t) \<in> set ?cs" and "x \<in> set (loop_nd result tensors dim S s t)"
      by auto
    then obtain i j where x: "x = memcpy_of result tensors dim S i j" "s \<le> i" "i < t"
      "j < length tensors"
      unfolding set_loop_nd by blast
    from st x(2,3) have "i \<in> (\<Union>(s, t) \<in> set ?cs. {s ..< t})"
      by (auto intro!: bexI [of _ "(s, t)"])
    then have "b \<le> i" "i < e" unfolding A by simp_all
    with x(1,4) show "x \<in> set (loop_nd result tensors dim S b e)"
      unfolding set_loop_nd by blast
  next
    fix x
    assume "x \<in> set (loop_nd result tensors dim S b e)"
    then obtain i j where x: "x = memcpy_of result tensors dim S i j" "b \<le> i" "i < e"
      "j < length tensors"
      unfolding set_loop_nd by blast
    from x(2,3) have "i \<in> (\<Union>(s, t) \<in> set ?cs. {s ..< t})" unfolding A by simp
    then obtain s t where st: "(s, t) \<in> set ?cs" "s \<le> i" "i < t" by auto
    with x(1,4) have "x \<in> set (loop_nd result tensors dim S s t)"
      unfolding set_loop_nd by blast
    with st(1) show "x \<in> (\<Union>(s, t) \<in> set ?cs. set (loop_nd result tensors dim S s t))"
      by auto
  qed
  then show ?thesis
    unfolding parallel_for_def by (simp add: split_def)
qed

lemma exec_parallel_for:
  assumes "valid_cat result tensors dim"
    and "is_partition (sched 0 (t_numel result div inner_of result dim) g)
           0 (t_numel result div inner_of result dim)"
  shows "exec (parallel_for sched 0 (t_numel result div inner_of result dim) g
                 (loop_nd result tensors dim (inner_of result dim))) h
       = exec (loop_nd result tensors dim (inner_of result dim) 0
                 (t_numel result div inner_of result dim)) h"
proof (rule exec_set_cong [OF indep_loop_nd [OF assms(1)]])
  show "set (parallel_for sched 0 (t_numel result div inner_of result dim) g
               (loop_nd result tensors dim (inner_of result dim)))
      = set (loop_nd result tensors dim (inner_of result dim) 0
               (t_numel result div inner_of result dim))"
    using assms(2) by (rule set_parallel_for)
qed

lemma partitions_sched_single: "partitions sched_single"
  unfolding partitions_def is_partition_def sched_single_def
  by (simp add: sorted_sort_id)

lemma indices_sched_grain:
  "concat (map (\<lambda>(s, t). [s..t - 1]) (sched_grain b e g)) = [b..e - 1]"
proof (induction b e g rule: sched_grain.induct)
  case (1 b e g)
  show ?case
  proof (cases "b < e")
    case False
    then show ?thesis by (subst sched_grain.simps) simp
  next
    case True
    let ?m = "min e (b + max 1 g)"
    have m: "b < ?m" "?m \<le> e" using True by simp_all
    have "[b..e - 1] = [b..?m - 1] @ [?m..e - 1]"
    proof (cases "?m = e")
      case True
      then show ?thesis by simp
    next
      case False
      with m show ?thesis by (intro upto_split1) simp_all
    qed
    with "1.IH" [OF True] True show ?thesis
      by (subst sched_grain.simps) simp
  qed
qed

lemma partitions_sched_grain: "partitions sched_grain"
  unfolding partitions_def is_partition_def indices_sched_grain
  by (simp add: sorted_sort_id)

lemma concat_rev_singletons: "concat (rev (map (\<lambda>x. [x]) xs)) = rev xs"
  by (induction xs) simp_all

lemma partitions_sched_each_rev: "partitions sched_each_rev"
  unfolding partitions_def is_partition_def
proof (intro allI)
  fix b e g :: int
  have "concat (map (\<lambda>(s, t). [s..t - 1]) (sched_each_rev b e g)) = rev [b..e - 1]"
    unfolding sched_each_rev_def
    by (simp add: rev_map [symmetric] comp_def concat_rev_singletons)
  moreover have "sort (rev [b..e - 1]) = [b..e - 1]"
    by (rule properties_for_sort) simp_all
  ultimately show "sort (concat (map (\<lambda>(s, t). [s..t - 1]) (sched_each_rev b e g))) = [b..e - 1]"
    by simp
qed

section \<open>The two kernels\<close>

lemma kernel_memcpy_partition:
  assumes "valid_cat result tensors dim" and "partitions sched"
  shows "cat_contig_kernel_impl_memcpy GS sched result tensors dim h =
     Inr (exec (loop_nd result tensors dim (inner_of result dim) 0
                  (t_numel result div inner_of result dim)) h)"
proof -
  let ?S = "t_size result dim * t_stride result dim"
  have S: "0 < ?S"
    using valid_cat_stride [OF assms(1)] unfolding inner_of_def .
  have n: "0 \<le> t_numel result"
    using assms(1) unfolding valid_cat_def by simp
  have S': "t_stride result dim * t_size result dim = ?S" by (simp add: mult.commute)
  have q: "cdiv (t_numel result) ?S = Inr (t_numel result div ?S)"
    using S n by (simp add: cdiv_pos)
  from S have "?S \<noteq> 0" by linarith
  then obtain g where g: "cdiv GS ?S = Inr g" using cdiv_nonzero by blast
  have p: "is_partition (sched 0 (t_numel result div inner_of result dim) g)
           0 (t_numel result div inner_of result dim)"
    using assms(2) unfolding partitions_def by blast
  have "cat_contig_kernel_impl_memcpy GS sched result tensors dim h =
      Inr (exec (parallel_for sched 0 (t_numel result div ?S) g
                   (loop_nd result tensors dim ?S)) h)"
    unfolding cat_contig_kernel_impl_memcpy_def q Let_def S' g by simp
  then show ?thesis
    using exec_parallel_for [where sched = sched and g = g and h = h, OF assms(1) p]
    unfolding inner_of_def by simp
qed

lemma exec_copy_of:
  assumes "valid_cat result tensors dim"
    and "0 \<le> i" and "i < t_numel result div inner_of result dim" and "j < length tensors"
  shows "exec (copy_of W result tensors dim (inner_of result dim) i j) h
       = exec [memcpy_of result tensors dim (inner_of result dim) i j] h"
proof -
  from rd_wr_memcpy_of [OF assms(1) assms(4,2,3) assms(4,2,3), of "inner_of result dim"]
  have "{t_data_ptr (tensors ! j) + i * inner_of (tensors ! j) dim
          ..< t_data_ptr (tensors ! j) + i * inner_of (tensors ! j) dim + inner_of (tensors ! j) dim}
      \<inter> {t_data_ptr result + i * inner_of result dim + offs tensors dim j
          ..< t_data_ptr result + i * inner_of result dim + offs tensors dim j
                + inner_of (tensors ! j) dim} = {}"
    unfolding wr_memcpy_of rd_memcpy_of .
  then show ?thesis
    unfolding copy_of_def memcpy_of_def by (simp add: exec_copy_inner)
qed

lemma kernel_vec_eq:
  assumes "valid_cat result tensors dim" and "t_numel result div inner_of result dim \<le> INT_MAX"
  shows "cat_contig_kernel_impl_vec W result tensors dim h =
     Inr (exec (loop_nd result tensors dim (inner_of result dim) 0
                  (t_numel result div inner_of result dim)) h)"
proof -
  let ?S = "inner_of result dim"
  let ?outer = "t_numel result div ?S"
  have S: "0 < ?S" and n: "0 \<le> t_numel result"
    using assms(1) unfolding valid_cat_def by simp_all
  have q: "cdiv (t_numel result) (t_size result dim * t_stride result dim) = Inr ?outer"
    using S n unfolding inner_of_def by (simp add: cdiv_pos)
  have s: "seq_outer W (metas tensors dim) ?outer 0 (t_data_ptr result) =
      Inr (concat (map (\<lambda>i. concat (map (copy_of W result tensors dim ?S i) [0..<length tensors]))
                    [0..?outer - 1]))"
    by (rule seq_outer_copy_of [OF assms(2) valid_cat_sum [OF assms(1)]])
  have inner: "exec (concat (map (copy_of W result tensors dim ?S i) [0..<length tensors])) h'
      = exec (map (memcpy_of result tensors dim ?S i) [0..<length tensors]) h'"
    if "i \<in> set [0..?outer - 1]" for i h'
  proof -
    from that have i: "0 \<le> i" "i < ?outer" by simp_all
    have "exec (concat (map (copy_of W result tensors dim ?S i) [0..<length tensors])) h'
        = exec (concat (map (\<lambda>j. [memcpy_of result tensors dim ?S i j]) [0..<length tensors])) h'"
      using exec_copy_of [OF assms(1) i] by (intro exec_concat_cong) simp
    also have "concat (map (\<lambda>j. [memcpy_of result tensors dim ?S i j]) [0..<length tensors])
        = map (memcpy_of result tensors dim ?S i) [0..<length tensors]"
      by (induction "[0..<length tensors]") simp_all
    finally show ?thesis .
  qed
  have "exec (concat (map (\<lambda>i. concat (map (copy_of W result tensors dim ?S i) [0..<length tensors]))
                    [0..?outer - 1])) h
      = exec (concat (map (\<lambda>i. map (memcpy_of result tensors dim ?S i) [0..<length tensors])
                    [0..?outer - 1])) h"
    using inner by (intro exec_concat_cong) simp
  moreover have "cat_contig_kernel_impl_vec W result tensors dim h =
      (case seq_outer W (metas tensors dim) ?outer 0 (t_data_ptr result) of
         Inl e \<Rightarrow> Inl e | Inr ops \<Rightarrow> Inr (exec ops h))"
    unfolding cat_contig_kernel_impl_vec_def q Let_def metas_def by simp
  ultimately show ?thesis
    unfolding s loop_nd_closed by simp
qed

lemma kernel_vec_overflow:
  assumes "0 < inner_of result dim" and "0 \<le> t_numel result"
    and "INT_MAX < t_numel result div inner_of result dim"
  shows "cat_contig_kernel_impl_vec W result tensors dim h = Inl SignedOverflow"
proof -
  have q: "cdiv (t_numel result) (t_size result dim * t_stride result dim)
      = Inr (t_numel result div inner_of result dim)"
    using assms(1,2) unfolding inner_of_def by (simp add: cdiv_pos)
  have "seq_outer W (metas tensors dim) (t_numel result div inner_of result dim) 0
      (t_data_ptr result) = Inl SignedOverflow"
    using assms(3) by (intro seq_outer_overflow) (simp_all add: INT_MAX_def)
  moreover have "cat_contig_kernel_impl_vec W result tensors dim h =
      (case seq_outer W (metas tensors dim) (t_numel result div inner_of result dim) 0
              (t_data_ptr result) of
         Inl e \<Rightarrow> Inl e | Inr ops \<Rightarrow> Inr (exec ops h))"
    unfolding cat_contig_kernel_impl_vec_def q Let_def metas_def by simp
  ultimately show ?thesis by simp
qed

lemma kernel_memcpy_natural:
  "cat_contig_kernel_impl_memcpy GS sched result tensors dim (f \<circ> h)
     = map_sum id ((\<circ>) f) (cat_contig_kernel_impl_memcpy GS sched result tensors dim h)"
  unfolding cat_contig_kernel_impl_memcpy_def Let_def
  by (simp add: exec_natural split: sum.splits)

lemma kernel_vec_natural:
  "cat_contig_kernel_impl_vec W result tensors dim (f \<circ> h)
     = map_sum id ((\<circ>) f) (cat_contig_kernel_impl_vec W result tensors dim h)"
  unfolding cat_contig_kernel_impl_vec_def Let_def
  by (simp add: exec_natural split: sum.splits)

text \<open>
  Under the preconditions the copies may take effect in any order, and any number of
  times: every sequence made of the operations of the sequential pass leaves the store
  the sequential pass leaves.
\<close>

lemma any_interleaving:
  assumes "valid_cat result tensors dim"
    and "set ops = set (loop_nd result tensors dim (inner_of result dim) 0
                          (t_numel result div inner_of result dim))"
  shows "exec ops h = exec (loop_nd result tensors dim (inner_of result dim) 0
                          (t_numel result div inner_of result dim)) h"
  by (rule exec_set_cong [OF indep_loop_nd [OF assms(1)] assms(2)])

text \<open>
  Degree-of-parallelism invariance, as far as it holds. Under the preconditions any two
  schedulers that partition the outer range, with any grain sizes, give the same store:
  the one a single sequential pass of \<^verbatim>\<open>loop_nd\<close> over \<open>[0, outer)\<close> gives. The
  sequential kernel gives that store as well when the outer count is at most \<open>INT_MAX\<close>,
  and fails on the increment of its \<^verbatim>\<open>int\<close> counter when it is larger.
\<close>

lemma degree_of_parallelism_invariance:
  assumes "valid_cat result tensors dim" and "partitions sched" and "partitions sched'"
  shows "cat_contig_kernel_impl_memcpy GS sched result tensors dim h
       = cat_contig_kernel_impl_memcpy GS' sched' result tensors dim h"
    and "cat_contig_kernel_impl_memcpy GS sched result tensors dim h
       = Inr (exec (loop_nd result tensors dim (inner_of result dim) 0
                      (t_numel result div inner_of result dim)) h)"
    and "t_numel result div inner_of result dim \<le> INT_MAX \<Longrightarrow>
         cat_contig_kernel_impl_vec W result tensors dim h
           = cat_contig_kernel_impl_memcpy GS sched result tensors dim h"
    and "INT_MAX < t_numel result div inner_of result dim \<Longrightarrow>
         cat_contig_kernel_impl_vec W result tensors dim h = Inl SignedOverflow"
proof -
  show "cat_contig_kernel_impl_memcpy GS sched result tensors dim h
       = cat_contig_kernel_impl_memcpy GS' sched' result tensors dim h"
    by (simp only: kernel_memcpy_partition [OF assms(1,2)] kernel_memcpy_partition [OF assms(1,3)])
  show "cat_contig_kernel_impl_memcpy GS sched result tensors dim h
       = Inr (exec (loop_nd result tensors dim (inner_of result dim) 0
                      (t_numel result div inner_of result dim)) h)"
    by (rule kernel_memcpy_partition [OF assms(1,2)])
  show "cat_contig_kernel_impl_vec W result tensors dim h
           = cat_contig_kernel_impl_memcpy GS sched result tensors dim h"
    if "t_numel result div inner_of result dim \<le> INT_MAX"
    by (simp only: kernel_memcpy_partition [OF assms(1,2)] kernel_vec_eq [OF assms(1) that])
  have "0 \<le> t_numel result" using assms(1) unfolding valid_cat_def by simp
  then show "cat_contig_kernel_impl_vec W result tensors dim h = Inl SignedOverflow"
    if "INT_MAX < t_numel result div inner_of result dim"
    using valid_cat_stride [OF assms(1)] that by (intro kernel_vec_overflow)
qed

section \<open>Counting the writers of an address\<close>

lemma writers_Nil [simp]: "writers [] a = 0"
  by (simp add: writers_def)

lemma writers_Cons [simp]: "writers (x # xs) a = (if a \<in> wr x then 1 else 0) + writers xs a"
  by (simp add: writers_def)

lemma writers_append [simp]: "writers (xs @ ys) a = writers xs a + writers ys a"
  by (simp add: writers_def)

lemma writers_mset: "mset xs = mset ys \<Longrightarrow> writers xs a = writers ys a"
proof -
  assume "mset xs = mset ys"
  then have "size (filter_mset (\<lambda>x. a \<in> wr x) (mset xs))
      = size (filter_mset (\<lambda>x. a \<in> wr x) (mset ys))" by simp
  then show ?thesis unfolding writers_def by (simp add: mset_filter [symmetric] del: mset_filter)
qed

lemma writers_loop_nd_tensors:
  assumes "\<forall>t \<in> set ts. 0 \<le> inner_of t dim"
  shows "writers (loop_nd_tensors ts dim i p) a
       = (if p \<le> a \<and> a < p + offs ts dim (length ts) then 1 else 0)"
  using assms
proof (induction ts arbitrary: p)
  case Nil
  then show ?case by simp
next
  case (Cons t ts)
  have n: "0 \<le> inner_of t dim" "0 \<le> offs ts dim (length ts)"
    using Cons.prems offs_nonneg [of ts dim "length ts"] by simp_all
  have IH: "writers (loop_nd_tensors ts dim i (p + inner_of t dim)) a
      = (if p + inner_of t dim \<le> a \<and> a < p + inner_of t dim + offs ts dim (length ts)
         then 1 else 0)"
    using Cons.prems by (intro Cons.IH) simp
  have "writers (loop_nd_tensors (t # ts) dim i p) a
      = (if p \<le> a \<and> a < p + inner_of t dim then 1 else 0)
        + writers (loop_nd_tensors ts dim i (p + inner_of t dim)) a"
    by (simp add: Let_def inner_of_def)
  then show ?case unfolding IH using n by auto
qed

lemma writers_loop_nd:
  "\<forall>t \<in> set ts. 0 \<le> inner_of t dim \<Longrightarrow> offs ts dim (length ts) = S \<Longrightarrow>
   writers (loop_nd result ts dim S s e) a
     = (if t_data_ptr result + s * S \<le> a \<and> a < t_data_ptr result + e * S then 1 else 0)"
proof (induction result ts dim S s e rule: loop_nd.induct)
  case (1 result ts dim S s e)
  have S: "0 \<le> S" using "1.prems" offs_nonneg [of ts dim "length ts"] by auto
  show ?case
  proof (cases "s < e")
    case False
    then have "e * S \<le> s * S" using S by (intro mult_right_mono) simp_all
    with False show ?thesis by (subst loop_nd.simps) simp
  next
    case True
    have IH: "writers (loop_nd result ts dim S (s + 1) e) a
        = (if t_data_ptr result + (s + 1) * S \<le> a \<and> a < t_data_ptr result + e * S then 1 else 0)"
      by (rule "1.IH" [OF True "1.prems"])
    have g: "writers (loop_nd_tensors ts dim s (t_data_ptr result + s * S)) a
        = (if t_data_ptr result + s * S \<le> a \<and> a < t_data_ptr result + s * S + S then 1 else 0)"
      using writers_loop_nd_tensors [OF "1.prems"(1)] "1.prems"(2) by simp
    have le: "s * S + S \<le> e * S" using S True by (rule group_apart)
    have eq: "(s + 1) * S = s * S + S" by (simp add: distrib_right)
    have "writers (loop_nd result ts dim S s e) a
        = writers (loop_nd_tensors ts dim s (t_data_ptr result + s * S)) a
          + writers (loop_nd result ts dim S (s + 1) e) a"
      using True by (subst loop_nd.simps) simp
    then show ?thesis unfolding IH g eq using S le by auto
  qed
qed

lemma writers_scalar_loop:
  "0 \<le> k \<Longrightarrow> writers (scalar_loop d s n k) a = (if d + k \<le> a \<and> a < d + n then 1 else 0)"
proof (induction d s n k rule: scalar_loop.induct)
  case (1 d s n k)
  show ?case
  proof (cases "k < n")
    case False
    then show ?thesis by (subst scalar_loop.simps) simp
  next
    case True
    have IH: "writers (scalar_loop d s n (k + 1)) a
        = (if d + (k + 1) \<le> a \<and> a < d + n then 1 else 0)"
      using "1.prems" by (intro "1.IH" [OF True]) simp
    have "writers (scalar_loop d s n k) a
        = (if a = d + k then 1 else 0) + writers (scalar_loop d s n (k + 1)) a"
      using True by (subst scalar_loop.simps) simp
    then show ?thesis unfolding IH using True by auto
  qed
qed

lemma writers_vec_map:
  "0 \<le> k \<Longrightarrow> writers (vec_map W d s n k) a = (if d + k \<le> a \<and> a < d + n then 1 else 0)"
proof (induction W d s n k rule: vec_map.induct)
  case (1 W d s n k)
  show ?case
  proof (cases "0 < W \<and> k + W \<le> n")
    case False
    then show ?thesis by (subst vec_map.simps) auto
  next
    case True
    have IH: "writers (vec_map W d s n (k + W)) a
        = (if d + (k + W) \<le> a \<and> a < d + n then 1 else 0)"
      using "1.prems" True by (intro "1.IH") simp_all
    have "writers (vec_map W d s n k) a
        = (if d + k \<le> a \<and> a < d + k + W then 1 else 0) + writers (vec_map W d s n (k + W)) a"
      using True by (subst vec_map.simps) simp
    then show ?thesis unfolding IH using True by auto
  qed
qed

lemma writers_copy_inner:
  "writers (copy_inner W d s n) a = (if d \<le> a \<and> a < d + n then 1 else 0)"
  unfolding copy_inner_def by (simp add: writers_scalar_loop writers_vec_map)

lemma sum_list_map_nonneg:
  fixes f :: "'b \<Rightarrow> int"
  shows "\<forall>x \<in> set xs. 0 \<le> f x \<Longrightarrow> 0 \<le> sum_list (map f xs)"
  by (induction xs) auto

lemma seq_inputs_writers:
  "\<forall>m \<in> set ms. 0 \<le> inner_size m \<Longrightarrow>
   writers (fst (seq_inputs W ms i p)) a
     = (if p \<le> a \<and> a < p + sum_list (map inner_size ms) then 1 else 0)
   \<and> snd (seq_inputs W ms i p) = p + sum_list (map inner_size ms)"
proof (induction ms arbitrary: p)
  case Nil
  then show ?case by simp
next
  case (Cons m ms)
  have n: "0 \<le> inner_size m" "0 \<le> sum_list (map inner_size ms)"
    using Cons.prems sum_list_map_nonneg [of ms inner_size] by simp_all
  have IH: "writers (fst (seq_inputs W ms i (p + inner_size m))) a
      = (if p + inner_size m \<le> a \<and> a < p + inner_size m + sum_list (map inner_size ms)
         then 1 else 0)"
    "snd (seq_inputs W ms i (p + inner_size m)) = p + inner_size m + sum_list (map inner_size ms)"
    using Cons.prems Cons.IH [of "p + inner_size m"] by simp_all
  have "writers (fst (seq_inputs W (m # ms) i p)) a
      = (if p \<le> a \<and> a < p + inner_size m then 1 else 0)
        + writers (fst (seq_inputs W ms i (p + inner_size m))) a"
    by (simp add: Let_def split_def writers_copy_inner)
  moreover have "snd (seq_inputs W (m # ms) i p) = snd (seq_inputs W ms i (p + inner_size m))"
    by (simp add: Let_def split_def)
  ultimately show ?case unfolding IH using n by auto
qed

lemma seq_outer_writers:
  "\<forall>m \<in> set ms. 0 \<le> inner_size m \<Longrightarrow> seq_outer W ms outer i p = Inr ops \<Longrightarrow>
   writers ops a
     = (if p \<le> a \<and> a < p + (outer - i) * sum_list (map inner_size ms) then 1 else 0)"
proof (induction W ms outer i p arbitrary: ops rule: seq_outer.induct)
  case (1 W ms outer i p)
  let ?T = "sum_list (map inner_size ms)"
  have T: "0 \<le> ?T" using "1.prems"(1) by (rule sum_list_map_nonneg)
  show ?case
  proof (cases "i < outer")
    case False
    then have "(outer - i) * ?T \<le> 0 * ?T" using T by (intro mult_right_mono) simp_all
    moreover from False "1.prems"(2) have "ops = []" by (subst (asm) seq_outer.simps) simp
    ultimately show ?thesis by simp
  next
    case True
    obtain xs q where sq: "seq_inputs W ms i p = (xs, q)" by (cases "seq_inputs W ms i p")
    from seq_inputs_writers [OF "1.prems"(1), of W i p a] sq
    have xs: "writers xs a = (if p \<le> a \<and> a < p + ?T then 1 else 0)" and q: "q = p + ?T"
      by simp_all
    from True sq "1.prems"(2) have ne: "i \<noteq> INT_MAX"
      by (subst (asm) seq_outer.simps) (auto split: if_splits)
    from True sq ne "1.prems"(2) obtain rest where
      rest: "seq_outer W ms outer (i + 1) q = Inr rest" and ops: "ops = xs @ rest"
      by (subst (asm) seq_outer.simps) (auto split: sum.splits)
    have IH: "writers rest a
        = (if q \<le> a \<and> a < q + (outer - (i + 1)) * ?T then 1 else 0)"
      by (rule "1.IH" [OF True sq [symmetric] ne "1.prems"(1) rest])
    have eq: "(outer - i) * ?T = ?T + (outer - (i + 1)) * ?T" by (simp add: algebra_simps)
    have "0 \<le> (outer - (i + 1)) * ?T" using True T by simp
    then show ?thesis unfolding ops writers_append xs IH q eq using T by auto
  qed
qed

lemma mset_concat_map_cong:
  assumes "mset xs = mset ys"
  shows "mset (concat (map G xs)) = mset (concat (map G ys))"
proof -
  have "mset (concat (map G zs)) = sum_mset (image_mset (\<lambda>z. mset (G z)) (mset zs))" for zs
    by (induction zs) simp_all
  then show ?thesis using assms by simp
qed

lemma concat_chunks:
  "concat (map (\<lambda>(s, t). concat (map G [s..t - 1])) cs)
     = concat (map G (concat (map (\<lambda>(s, t). [s..t - 1]) cs)))"
  by (induction cs) (simp_all add: split_def)

lemma mset_parallel_for:
  assumes "is_partition (sched b e g) b e"
  shows "mset (parallel_for sched b e g (loop_nd result tensors dim S))
       = mset (loop_nd result tensors dim S b e)"
proof -
  let ?G = "\<lambda>i. loop_nd_tensors tensors dim i (t_data_ptr result + i * S)"
  let ?cs = "sched b e g"
  have "mset (sort (concat (map (\<lambda>(s, t). [s..t - 1]) ?cs))) = mset [b..e - 1]"
    using assms unfolding is_partition_def by simp
  then have m: "mset (concat (map (\<lambda>(s, t). [s..t - 1]) ?cs)) = mset [b..e - 1]"
    by simp
  have "parallel_for sched b e g (loop_nd result tensors dim S)
      = concat (map (\<lambda>(s, t). concat (map ?G [s..t - 1])) ?cs)"
    unfolding parallel_for_def loop_nd_concat ..
  also have "\<dots> = concat (map ?G (concat (map (\<lambda>(s, t). [s..t - 1]) ?cs)))"
    by (rule concat_chunks)
  finally have "mset (parallel_for sched b e g (loop_nd result tensors dim S))
      = mset (concat (map ?G [b..e - 1]))"
    using mset_concat_map_cong [OF m, of ?G] by simp
  then show ?thesis unfolding loop_nd_concat .
qed

lemma writers_parallel_for:
  assumes "valid_cat result tensors dim"
    and "is_partition (sched 0 (t_numel result div inner_of result dim) g)
           0 (t_numel result div inner_of result dim)"
  shows "writers (parallel_for sched 0 (t_numel result div inner_of result dim) g
                    (loop_nd result tensors dim (inner_of result dim))) a
       = (if t_data_ptr result \<le> a \<and> a < t_data_ptr result + t_numel result then 1 else 0)"
proof -
  have "writers (parallel_for sched 0 (t_numel result div inner_of result dim) g
                    (loop_nd result tensors dim (inner_of result dim))) a
      = writers (loop_nd result tensors dim (inner_of result dim) 0
                   (t_numel result div inner_of result dim)) a"
  proof (rule writers_mset)
    show "mset (parallel_for sched 0 (t_numel result div inner_of result dim) g
                  (loop_nd result tensors dim (inner_of result dim)))
        = mset (loop_nd result tensors dim (inner_of result dim) 0
                  (t_numel result div inner_of result dim))"
      using assms(2) by (rule mset_parallel_for)
  qed
  also have "\<dots> = (if t_data_ptr result + 0 * inner_of result dim \<le> a
        \<and> a < t_data_ptr result + t_numel result div inner_of result dim * inner_of result dim
      then 1 else 0)"
    by (rule writers_loop_nd [OF valid_cat_inner [OF assms(1)] valid_cat_sum [OF assms(1)]])
  finally show ?thesis unfolding valid_cat_numel(1) [OF assms(1)] by simp
qed

lemma metas_inner_size:
  "sum_list (map inner_size (metas tensors dim)) = offs tensors dim (length tensors)"
  "(\<forall>m \<in> set (metas tensors dim). 0 \<le> inner_size m) \<longleftrightarrow> (\<forall>t \<in> set tensors. 0 \<le> inner_of t dim)"
  by (simp_all add: metas_def InputMeta_init_def inner_of_def offs_def comp_def)

lemma writers_seq_outer_kernel:
  assumes "valid_cat result tensors dim"
    and "seq_outer W (metas tensors dim) (t_numel result div inner_of result dim) 0
           (t_data_ptr result) = Inr ops"
  shows "writers ops a
       = (if t_data_ptr result \<le> a \<and> a < t_data_ptr result + t_numel result then 1 else 0)"
proof -
  have nn: "\<forall>m \<in> set (metas tensors dim). 0 \<le> inner_size m"
    using valid_cat_inner [OF assms(1)] by (simp add: metas_inner_size(2))
  from seq_outer_writers [OF nn assms(2), of a]
  show ?thesis
    unfolding metas_inner_size(1) valid_cat_sum [OF assms(1)]
    using valid_cat_numel(1) [OF assms(1)] by simp
qed

lemma kernel_memcpy_ops:
  assumes "valid_cat result tensors dim"
  shows "\<exists>g. cat_contig_kernel_impl_memcpy GS sched result tensors dim h =
     Inr (exec (parallel_for sched 0 (t_numel result div inner_of result dim) g
                  (loop_nd result tensors dim (inner_of result dim))) h)"
proof -
  let ?S = "t_size result dim * t_stride result dim"
  have S: "0 < ?S"
    using valid_cat_stride [OF assms(1)] unfolding inner_of_def .
  have n: "0 \<le> t_numel result"
    using assms(1) unfolding valid_cat_def by simp
  have S': "t_stride result dim * t_size result dim = ?S" by (simp add: mult.commute)
  have q: "cdiv (t_numel result) ?S = Inr (t_numel result div ?S)"
    using S n by (simp add: cdiv_pos)
  from S have "?S \<noteq> 0" by linarith
  then obtain g where g: "cdiv GS ?S = Inr g" using cdiv_nonzero by blast
  have "cat_contig_kernel_impl_memcpy GS sched result tensors dim h =
      Inr (exec (parallel_for sched 0 (t_numel result div ?S) g
                   (loop_nd result tensors dim ?S)) h)"
    unfolding cat_contig_kernel_impl_memcpy_def q Let_def S' g by simp
  then show ?thesis unfolding inner_of_def by blast
qed

lemma kernel_vec_ops:
  assumes "valid_cat result tensors dim"
  shows "cat_contig_kernel_impl_vec W result tensors dim h =
     (case seq_outer W (map (\<lambda>tensor. InputMeta_init tensor dim (t_stride tensor dim)) tensors)
             (t_numel result div inner_of result dim) 0 (t_data_ptr result) of
        Inl e \<Rightarrow> Inl e | Inr ops \<Rightarrow> Inr (exec ops h))"
proof -
  have S: "0 < inner_of result dim" and n: "0 \<le> t_numel result"
    using assms(1) unfolding valid_cat_def by simp_all
  have q: "cdiv (t_numel result) (t_size result dim * t_stride result dim)
      = Inr (t_numel result div inner_of result dim)"
    using S n unfolding inner_of_def by (simp add: cdiv_pos)
  show ?thesis unfolding cat_contig_kernel_impl_vec_def q Let_def by simp
qed

lemma length_loop_nd_tensors: "length (loop_nd_tensors ts dim i p) = length ts"
  by (simp add: loop_nd_tensors_map)

text \<open>
  The operations the two kernels run, and how many of them write an address: one for an
  address of the output buffer, none for any other.
\<close>

lemma writer_counts:
  assumes "valid_cat result tensors dim"
  shows "(partitions sched \<longrightarrow>
          (\<exists>g. cat_contig_kernel_impl_memcpy GS sched result tensors dim h =
                 Inr (exec (parallel_for sched 0 (t_numel result div inner_of result dim) g
                              (loop_nd result tensors dim (inner_of result dim))) h)
             \<and> (\<forall>a. writers (parallel_for sched 0 (t_numel result div inner_of result dim) g
                                  (loop_nd result tensors dim (inner_of result dim))) a
                     = (if t_data_ptr result \<le> a \<and> a < t_data_ptr result + t_numel result
                        then 1 else 0))))
    \<and> cat_contig_kernel_impl_vec W result tensors dim h =
         (case seq_outer W (map (\<lambda>tensor. InputMeta_init tensor dim (t_stride tensor dim)) tensors)
                 (t_numel result div inner_of result dim) 0 (t_data_ptr result) of
            Inl e \<Rightarrow> Inl e | Inr ops \<Rightarrow> Inr (exec ops h))
    \<and> (\<forall>ops a.
          seq_outer W (map (\<lambda>tensor. InputMeta_init tensor dim (t_stride tensor dim)) tensors)
              (t_numel result div inner_of result dim) 0 (t_data_ptr result) = Inr ops \<longrightarrow>
          writers ops a
            = (if t_data_ptr result \<le> a \<and> a < t_data_ptr result + t_numel result then 1 else 0))
    \<and> (t_numel result div inner_of result dim \<le> INT_MAX \<longrightarrow>
          (\<exists>ops. seq_outer W (map (\<lambda>tensor. InputMeta_init tensor dim (t_stride tensor dim)) tensors)
              (t_numel result div inner_of result dim) 0 (t_data_ptr result) = Inr ops))
    \<and> (\<forall>i a. writers (loop_nd result tensors dim (inner_of result dim) i (i + 1)) a
          = (if t_data_ptr result + i * inner_of result dim \<le> a
                \<and> a < t_data_ptr result + i * inner_of result dim + inner_of result dim
             then 1 else 0))
    \<and> (\<forall>s e. loop_nd result tensors dim (inner_of result dim) s e
          = concat (map (\<lambda>i. loop_nd_tensors tensors dim i
                                (t_data_ptr result + i * inner_of result dim)) [s..e - 1]))
    \<and> (\<forall>i p. length (loop_nd_tensors tensors dim i p) = length tensors)"
proof -
  let ?S = "inner_of result dim"
  let ?outer = "t_numel result div ?S"
  let ?ms = "map (\<lambda>tensor. InputMeta_init tensor dim (t_stride tensor dim)) tensors"
  have k1: "\<exists>g. cat_contig_kernel_impl_memcpy GS sched result tensors dim h =
                 Inr (exec (parallel_for sched 0 ?outer g (loop_nd result tensors dim ?S)) h)
             \<and> (\<forall>a. writers (parallel_for sched 0 ?outer g (loop_nd result tensors dim ?S)) a
                     = (if t_data_ptr result \<le> a \<and> a < t_data_ptr result + t_numel result
                        then 1 else 0))"
    if p: "partitions sched"
  proof -
    from kernel_memcpy_ops [OF assms, of GS sched h] obtain g where
      g: "cat_contig_kernel_impl_memcpy GS sched result tensors dim h =
          Inr (exec (parallel_for sched 0 ?outer g (loop_nd result tensors dim ?S)) h)"
      by blast
    have "is_partition (sched 0 ?outer g) 0 ?outer"
      using p unfolding partitions_def by blast
    then have "\<forall>a. writers (parallel_for sched 0 ?outer g (loop_nd result tensors dim ?S)) a
        = (if t_data_ptr result \<le> a \<and> a < t_data_ptr result + t_numel result then 1 else 0)"
      using writers_parallel_for [OF assms] by blast
    with g show ?thesis by blast
  qed
  have k2: "cat_contig_kernel_impl_vec W result tensors dim h =
         (case seq_outer W ?ms ?outer 0 (t_data_ptr result) of
            Inl e \<Rightarrow> Inl e | Inr ops \<Rightarrow> Inr (exec ops h))"
    by (rule kernel_vec_ops [OF assms])
  have k3: "\<forall>ops a. seq_outer W ?ms ?outer 0 (t_data_ptr result) = Inr ops \<longrightarrow>
      writers ops a
        = (if t_data_ptr result \<le> a \<and> a < t_data_ptr result + t_numel result then 1 else 0)"
    using writers_seq_outer_kernel [OF assms] unfolding metas_def by blast
  have k4: "?outer \<le> INT_MAX \<longrightarrow> (\<exists>ops. seq_outer W ?ms ?outer 0 (t_data_ptr result) = Inr ops)"
    using seq_outer_closed [of ?outer W tensors dim 0 "t_data_ptr result"]
    unfolding metas_def by blast
  have k5: "\<forall>i a. writers (loop_nd result tensors dim ?S i (i + 1)) a
      = (if t_data_ptr result + i * ?S \<le> a \<and> a < t_data_ptr result + i * ?S + ?S then 1 else 0)"
  proof (intro allI)
    fix i a
    have "(i + 1) * ?S = i * ?S + ?S" by (simp add: distrib_right)
    with writers_loop_nd [OF valid_cat_inner [OF assms] valid_cat_sum [OF assms], of result i "i + 1" a]
    show "writers (loop_nd result tensors dim ?S i (i + 1)) a
      = (if t_data_ptr result + i * ?S \<le> a \<and> a < t_data_ptr result + i * ?S + ?S then 1 else 0)"
      by (simp add: add.assoc)
  qed
  have k6: "\<forall>s e. loop_nd result tensors dim ?S s e
      = concat (map (\<lambda>i. loop_nd_tensors tensors dim i (t_data_ptr result + i * ?S)) [s..e - 1])"
    using loop_nd_concat by blast
  have k7: "\<forall>i p. length (loop_nd_tensors tensors dim i p) = length tensors"
    by (simp add: length_loop_nd_tensors)
  from k1 k2 k3 k4 k5 k6 k7 show ?thesis by blast
qed

text \<open>
  The address ranges of the copies, pair by pair (a pair is an outer index and an input
  index).
\<close>

lemma pair_regions:
  assumes "valid_cat result tensors dim"
  shows "(\<forall>i j i' j'. j < length tensors \<and> j' < length tensors \<and> (i, j) \<noteq> (i', j') \<longrightarrow>
            wr (loop_nd_tensors tensors dim i (t_data_ptr result + i * inner_of result dim) ! j)
            \<inter> wr (loop_nd_tensors tensors dim i' (t_data_ptr result + i' * inner_of result dim) ! j')
            = {})
    \<and> (\<forall>a. t_data_ptr result \<le> a \<and> a < t_data_ptr result + t_numel result \<longrightarrow>
          (\<exists>!p. 0 \<le> fst p \<and> fst p < t_numel result div inner_of result dim
                 \<and> snd p < length tensors
                 \<and> a \<in> wr (loop_nd_tensors tensors dim (fst p)
                              (t_data_ptr result + fst p * inner_of result dim) ! snd p)))
    \<and> (\<forall>x \<in> set (loop_nd result tensors dim (inner_of result dim) 0
                      (t_numel result div inner_of result dim)).
          wr x \<subseteq> {t_data_ptr result ..< t_data_ptr result + t_numel result})
    \<and> (\<forall>i. (\<Union>j<length tensors.
               wr (loop_nd_tensors tensors dim i (t_data_ptr result + i * inner_of result dim) ! j))
            = {t_data_ptr result + i * inner_of result dim
                 ..< t_data_ptr result + i * inner_of result dim + inner_of result dim})
    \<and> (\<forall>i i'. i \<noteq> i' \<longrightarrow>
          {t_data_ptr result + i * inner_of result dim
             ..< t_data_ptr result + i * inner_of result dim + inner_of result dim}
          \<inter> {t_data_ptr result + i' * inner_of result dim
             ..< t_data_ptr result + i' * inner_of result dim + inner_of result dim} = {})
    \<and> (\<forall>i j. j < length tensors \<longrightarrow>
          \<Union> (wr ` set (copy_of W result tensors dim (inner_of result dim) i j))
            = wr (loop_nd_tensors tensors dim i (t_data_ptr result + i * inner_of result dim) ! j))"
proof -
  let ?S = "inner_of result dim"
  let ?outer = "t_numel result div ?S"
  let ?op = "\<lambda>i j. loop_nd_tensors tensors dim i (t_data_ptr result + i * ?S) ! j"
  note nth = nth_loop_nd_tensors_memcpy_of [of _ tensors dim _ result ?S]
  have a: "\<forall>i j i' j'. j < length tensors \<and> j' < length tensors \<and> (i, j) \<noteq> (i', j') \<longrightarrow>
      wr (?op i j) \<inter> wr (?op i' j') = {}"
    using wr_wr_memcpy_of [OF assms] by (simp add: nth)
  have b: "\<forall>a. t_data_ptr result \<le> a \<and> a < t_data_ptr result + t_numel result \<longrightarrow>
      (\<exists>!p. 0 \<le> fst p \<and> fst p < ?outer \<and> snd p < length tensors
             \<and> a \<in> wr (?op (fst p) (snd p)))"
  proof (intro allI impI)
    fix a assume "t_data_ptr result \<le> a \<and> a < t_data_ptr result + t_numel result"
    then obtain i j where ij: "0 \<le> i" "i < ?outer" "j < length tensors"
      "a \<in> wr (memcpy_of result tensors dim ?S i j)"
      using output_located [OF assms, of a] by blast
    show "\<exists>!p. 0 \<le> fst p \<and> fst p < ?outer \<and> snd p < length tensors
             \<and> a \<in> wr (?op (fst p) (snd p))"
    proof (rule ex1I [of _ "(i, j)"])
      show "0 \<le> fst (i, j) \<and> fst (i, j) < ?outer \<and> snd (i, j) < length tensors
             \<and> a \<in> wr (?op (fst (i, j)) (snd (i, j)))"
        using ij by (simp add: nth)
    next
      fix p
      assume p: "0 \<le> fst p \<and> fst p < ?outer \<and> snd p < length tensors
             \<and> a \<in> wr (?op (fst p) (snd p))"
      show "p = (i, j)"
      proof (rule ccontr)
        assume "p \<noteq> (i, j)"
        then have "(fst p, snd p) \<noteq> (i, j)" by simp
        with a p ij(3) have "wr (?op (fst p) (snd p)) \<inter> wr (?op i j) = {}" by blast
        moreover have "a \<in> wr (?op i j)" using ij by (simp add: nth)
        ultimately show False using p by blast
      qed
    qed
  qed
  have c: "\<forall>x \<in> set (loop_nd result tensors dim ?S 0 ?outer).
      wr x \<subseteq> {t_data_ptr result ..< t_data_ptr result + t_numel result}"
  proof
    fix x assume "x \<in> set (loop_nd result tensors dim ?S 0 ?outer)"
    then obtain i j where "x = memcpy_of result tensors dim ?S i j" "0 \<le> i" "i < ?outer"
      "j < length tensors"
      unfolding set_loop_nd by blast
    then show "wr x \<subseteq> {t_data_ptr result ..< t_data_ptr result + t_numel result}"
      using wr_memcpy_of_output [OF assms] by simp
  qed
  have d: "\<forall>i. (\<Union>j<length tensors. wr (?op i j))
      = {t_data_ptr result + i * ?S ..< t_data_ptr result + i * ?S + ?S}"
  proof
    fix i
    have "(\<Union>j<length tensors. wr (?op i j))
        = (\<Union>j<length tensors. {t_data_ptr result + i * ?S + offs tensors dim j
              ..< t_data_ptr result + i * ?S + offs tensors dim j + inner_of (tensors ! j) dim})"
      by (simp add: nth wr_memcpy_of)
    also have "\<dots> = {t_data_ptr result + i * ?S
        ..< t_data_ptr result + i * ?S + offs tensors dim (length tensors)}"
      by (rule group_union [OF valid_cat_inner [OF assms]])
    finally show "(\<Union>j<length tensors. wr (?op i j))
      = {t_data_ptr result + i * ?S ..< t_data_ptr result + i * ?S + ?S}"
      unfolding valid_cat_sum [OF assms] .
  qed
  have S: "0 \<le> ?S" using valid_cat_stride [OF assms] by simp
  have e: "\<forall>i i'. i \<noteq> i' \<longrightarrow>
      {t_data_ptr result + i * ?S ..< t_data_ptr result + i * ?S + ?S}
      \<inter> {t_data_ptr result + i' * ?S ..< t_data_ptr result + i' * ?S + ?S} = {}"
  proof (intro allI impI)
    fix i i' :: int assume "i \<noteq> i'"
    then consider "i < i'" | "i' < i" by linarith
    then show "{t_data_ptr result + i * ?S ..< t_data_ptr result + i * ?S + ?S}
      \<inter> {t_data_ptr result + i' * ?S ..< t_data_ptr result + i' * ?S + ?S} = {}"
    proof cases
      case 1
      from group_apart [OF S 1] show ?thesis by auto
    next
      case 2
      from group_apart [OF S 2] show ?thesis by auto
    qed
  qed
  have f: "\<forall>i j. j < length tensors \<longrightarrow>
      \<Union> (wr ` set (copy_of W result tensors dim ?S i j)) = wr (?op i j)"
    by (simp add: nth wr_memcpy_of copy_of_def wr_copy_inner)
  from a b c d e f show ?thesis by blast
qed

section \<open>The examples meet the preconditions\<close>

lemma valid_cat_example: "valid_cat exOut [exA, exB] 1"
  by (simp add: valid_cat_def inner_of_def exOut_def exA_def exB_def contiguous_def)

lemma valid_cat_big: "valid_cat exBigOut [exBigIn] 1"
  by (simp add: valid_cat_def inner_of_def exBigOut_def exBigIn_def contiguous_def)

section \<open>The claims\<close>

text \<open>
  C1. For inputs that meet the preconditions, and a scheduler that partitions the outer
  range, the parallel kernel returns a store in which, for every outer index \<open>i\<close>, the
  output's inner run is the concatenation, in input-list order, of each input's inner run
  for \<open>i\<close> as it was before the call; reading \<open>inner_size[j]\<close> elements at the running
  offset of input \<open>j\<close> gives back input \<open>j\<close>'s run; and the whole output buffer is the
  concatenation of these groups over all outer indices in increasing order. Whatever
  store the sequential kernel returns is that same store, and it returns it whenever the
  outer count fits its \<^verbatim>\<open>int\<close> counter.
\<close>

theorem reconstruction:
  assumes "valid_cat result tensors dim" and "partitions sched"
  shows "\<exists>h'. cat_contig_kernel_impl_memcpy GS sched result tensors dim h = Inr h'
    \<and> (\<forall>i. 0 \<le> i \<and> i < t_numel result div inner_of result dim \<longrightarrow>
          run h' (t_data_ptr result + i * inner_of result dim) (inner_of result dim)
            = group_of h tensors dim i)
    \<and> (\<forall>i j. 0 \<le> i \<and> i < t_numel result div inner_of result dim \<and> j < length tensors \<longrightarrow>
          run h' (t_data_ptr result + i * inner_of result dim + offs tensors dim j)
              (inner_of (tensors ! j) dim)
            = run h (t_data_ptr (tensors ! j) + i * inner_of (tensors ! j) dim)
                (inner_of (tensors ! j) dim))
    \<and> run h' (t_data_ptr result) (t_numel result)
          = concat (map (group_of h tensors dim) [0..t_numel result div inner_of result dim - 1])
    \<and> (\<forall>h''. cat_contig_kernel_impl_vec W result tensors dim h = Inr h'' \<longrightarrow> h'' = h')
    \<and> (t_numel result div inner_of result dim \<le> INT_MAX \<longrightarrow>
          cat_contig_kernel_impl_vec W result tensors dim h = Inr h')"
proof -
  let ?outer = "t_numel result div inner_of result dim"
  let ?h' = "exec (loop_nd result tensors dim (inner_of result dim) 0 ?outer) h"
  have a: "cat_contig_kernel_impl_memcpy GS sched result tensors dim h = Inr ?h'"
    by (rule kernel_memcpy_partition [OF assms])
  have b: "\<forall>i. 0 \<le> i \<and> i < ?outer \<longrightarrow>
      run ?h' (t_data_ptr result + i * inner_of result dim) (inner_of result dim)
        = group_of h tensors dim i"
    using group_exec_loop_nd [OF assms(1)] by blast
  have c: "\<forall>i j. 0 \<le> i \<and> i < ?outer \<and> j < length tensors \<longrightarrow>
      run ?h' (t_data_ptr result + i * inner_of result dim + offs tensors dim j)
          (inner_of (tensors ! j) dim)
        = run h (t_data_ptr (tensors ! j) + i * inner_of (tensors ! j) dim)
            (inner_of (tensors ! j) dim)"
    using run_exec_loop_nd [OF assms(1)] by blast
  have d: "run ?h' (t_data_ptr result) (t_numel result)
      = concat (map (group_of h tensors dim) [0..?outer - 1])"
    by (rule whole_exec_loop_nd [OF assms(1)])
  have f: "?outer \<le> INT_MAX \<longrightarrow> cat_contig_kernel_impl_vec W result tensors dim h = Inr ?h'"
    using kernel_vec_eq [OF assms(1)] by blast
  have e: "\<forall>h''. cat_contig_kernel_impl_vec W result tensors dim h = Inr h'' \<longrightarrow> h'' = ?h'"
  proof (cases "?outer \<le> INT_MAX")
    case True
    with f show ?thesis by simp
  next
    case False
    then have "INT_MAX < ?outer" by simp
    have "0 \<le> t_numel result" using assms(1) unfolding valid_cat_def by simp
    have "cat_contig_kernel_impl_vec W result tensors dim h = Inl SignedOverflow"
      using valid_cat_stride [OF assms(1)] \<open>0 \<le> t_numel result\<close> \<open>INT_MAX < ?outer\<close>
      by (rule kernel_vec_overflow)
    then show ?thesis by simp
  qed
  from a b c d e f show ?thesis by blast
qed

theorem reconstruction_witness:
  "\<exists>h'. cat_contig_kernel_impl_memcpy 32768 sched_each_rev exOut [exA, exB] 1 exHeap = Inr h'
     \<and> run h' 20 4 = [1, 2, 5, 6] \<and> run h' 24 4 = [3, 4, 7, 8]
     \<and> run h' 20 8 = [1, 2, 5, 6, 3, 4, 7, 8]
     \<and> cat_contig_kernel_impl_vec 8 exOut [exA, exB] 1 exHeap = Inr h'"
proof -
  have o: "t_numel exOut div inner_of exOut 1 = 2" "inner_of exOut 1 = 4" "t_data_ptr exOut = 20"
    "t_numel exOut = 8"
    by (simp_all add: inner_of_def exOut_def contiguous_def)
  have g: "group_of exHeap [exA, exB] 1 0 = [1, 2, 5, 6]"
    "group_of exHeap [exA, exB] 1 1 = [3, 4, 7, 8]"
    by (simp_all add: group_of_def run_def inner_of_def exA_def exB_def contiguous_def exHeap_def
        upto_rec1)
  from reconstruction [OF valid_cat_example partitions_sched_each_rev, of 32768 exHeap 8]
  obtain h' where h':
    "cat_contig_kernel_impl_memcpy 32768 sched_each_rev exOut [exA, exB] 1 exHeap = Inr h'"
    "\<forall>i. 0 \<le> i \<and> i < t_numel exOut div inner_of exOut 1 \<longrightarrow>
       run h' (t_data_ptr exOut + i * inner_of exOut 1) (inner_of exOut 1)
         = group_of exHeap [exA, exB] 1 i"
    "run h' (t_data_ptr exOut) (t_numel exOut)
       = concat (map (group_of exHeap [exA, exB] 1) [0..t_numel exOut div inner_of exOut 1 - 1])"
    "t_numel exOut div inner_of exOut 1 \<le> INT_MAX \<longrightarrow>
       cat_contig_kernel_impl_vec 8 exOut [exA, exB] 1 exHeap = Inr h'"
    by blast
  from h'(2) [rule_format, of 0] h'(2) [rule_format, of 1] g
  have "run h' 20 4 = [1, 2, 5, 6]" "run h' 24 4 = [3, 4, 7, 8]"
    unfolding o by simp_all
  moreover from h'(3) g have "run h' 20 8 = [1, 2, 5, 6, 3, 4, 7, 8]"
    unfolding o by (simp add: upto_rec1)
  moreover from h'(4) have "cat_contig_kernel_impl_vec 8 exOut [exA, exB] 1 exHeap = Inr h'"
    unfolding o by (simp add: INT_MAX_def)
  ultimately show ?thesis using h'(1) by blast
qed

text \<open>
  C2. The operations the copy loops issue, in program order. For every outer index \<open>i\<close> of
  its sub-range, in increasing order, and for every input \<open>j\<close>, in list order, the parallel
  kernel issues one \<^verbatim>\<open>memcpy\<close> of \<open>inner_size[j]\<close> = extent times stride elements from
  \<open>input_base[j] + i * inner_size[j]\<close> to the output cursor; the cursor of a group starts
  at \<open>output_base + i * output_stride\<close> and has advanced by the inner sizes of the inputs
  before \<open>j\<close>. The sequential kernel issues, for the same pairs in the same order, its
  scalar loop or vector move with the same three arguments, provided the inner sizes sum
  up to the output group stride (it never resets its cursor) and its \<^verbatim>\<open>int\<close> counter
  can reach the outer count.
\<close>

theorem copy_loop_cursors:
  "loop_nd result tensors dim S start end' =
     concat (map (\<lambda>i. map (\<lambda>j.
        Memcpy (t_data_ptr result + i * S + offs tensors dim j)
               (t_data_ptr (tensors ! j) + i * (t_size (tensors ! j) dim * t_stride (tensors ! j) dim))
               (t_size (tensors ! j) dim * t_stride (tensors ! j) dim))
        [0..<length tensors]) [start..end' - 1])
   \<and> (outer \<le> INT_MAX \<longrightarrow> sum_list (map (\<lambda>t. inner_of t dim) tensors) = S \<longrightarrow>
        seq_outer W (map (\<lambda>tensor. InputMeta_init tensor dim (t_stride tensor dim)) tensors)
            outer 0 (t_data_ptr result) =
          Inr (concat (map (\<lambda>i. concat (map (\<lambda>j.
            copy_inner W (t_data_ptr result + i * S + offs tensors dim j)
               (t_data_ptr (tensors ! j) + i * (t_size (tensors ! j) dim * t_stride (tensors ! j) dim))
               (t_size (tensors ! j) dim * t_stride (tensors ! j) dim))
            [0..<length tensors])) [0..outer - 1])))
   \<and> offs tensors dim 0 = 0
   \<and> (\<forall>j < length tensors.
        offs tensors dim (Suc j) =
          offs tensors dim j + t_size (tensors ! j) dim * t_stride (tensors ! j) dim)"
proof -
  have a: "loop_nd result tensors dim S start end' =
     concat (map (\<lambda>i. map (\<lambda>j.
        Memcpy (t_data_ptr result + i * S + offs tensors dim j)
               (t_data_ptr (tensors ! j) + i * (t_size (tensors ! j) dim * t_stride (tensors ! j) dim))
               (t_size (tensors ! j) dim * t_stride (tensors ! j) dim))
        [0..<length tensors]) [start..end' - 1])"
    using loop_nd_closed [of result tensors dim S start end']
    unfolding memcpy_of_def inner_of_def .
  have b: "outer \<le> INT_MAX \<longrightarrow> sum_list (map (\<lambda>t. inner_of t dim) tensors) = S \<longrightarrow>
        seq_outer W (map (\<lambda>tensor. InputMeta_init tensor dim (t_stride tensor dim)) tensors)
            outer 0 (t_data_ptr result) =
          Inr (concat (map (\<lambda>i. concat (map (\<lambda>j.
            copy_inner W (t_data_ptr result + i * S + offs tensors dim j)
               (t_data_ptr (tensors ! j) + i * (t_size (tensors ! j) dim * t_stride (tensors ! j) dim))
               (t_size (tensors ! j) dim * t_stride (tensors ! j) dim))
            [0..<length tensors])) [0..outer - 1]))"
  proof (intro impI)
    assume o: "outer \<le> INT_MAX" and s: "sum_list (map (\<lambda>t. inner_of t dim) tensors) = S"
    from s have "offs tensors dim (length tensors) = S" by (simp add: sum_inner_offs)
    from seq_outer_copy_of [OF o this, of W result]
    show "seq_outer W (map (\<lambda>tensor. InputMeta_init tensor dim (t_stride tensor dim)) tensors)
            outer 0 (t_data_ptr result) =
          Inr (concat (map (\<lambda>i. concat (map (\<lambda>j.
            copy_inner W (t_data_ptr result + i * S + offs tensors dim j)
               (t_data_ptr (tensors ! j) + i * (t_size (tensors ! j) dim * t_stride (tensors ! j) dim))
               (t_size (tensors ! j) dim * t_stride (tensors ! j) dim))
            [0..<length tensors])) [0..outer - 1]))"
      unfolding copy_of_def inner_of_def metas_def .
  qed
  have c: "\<forall>j < length tensors.
        offs tensors dim (Suc j) =
          offs tensors dim j + t_size (tensors ! j) dim * t_stride (tensors ! j) dim"
    by (simp add: offs_Suc inner_of_def)
  from a b c show ?thesis by simp
qed

theorem copy_loop_cursors_witness:
  "loop_nd exOut [exA, exB] 1 4 0 2 =
     [Memcpy 20 0 2, Memcpy 22 10 2, Memcpy 24 2 2, Memcpy 26 12 2]
   \<and> seq_outer 8 (map (\<lambda>tensor. InputMeta_init tensor 1 (t_stride tensor 1)) [exA, exB])
        2 0 20 =
     Inr [Assign 20 0, Assign 21 1, Assign 22 10, Assign 23 11,
          Assign 24 2, Assign 25 3, Assign 26 12, Assign 27 13]"
  using copy_loop_cursors [of exOut "[exA, exB]" 1 4 0 2 2 8]
  by (simp add: exOut_def exA_def exB_def contiguous_def INT_MAX_def inner_of_def offs_def
      copy_inner_def scalar_loop.simps upto_rec1 upt_conv_Cons)

text \<open>
  C3. With a positive output group stride \<open>S\<close> = extent times stride of the output along
  the axis, the parallel kernel is \<^verbatim>\<open>parallel_for\<close> over \<open>[0, outer)\<close> with
  \<open>outer = numel div S\<close> and grain size \<open>GRAIN_SIZE div S\<close>, both computed before the loop
  and handed to it as values; the loop body receives \<open>S\<close> and computes neither. The
  sequential kernel runs its loop to the same outer count. The grain size is the largest
  number of outer groups whose \<open>S\<close> elements each stay within \<open>GRAIN_SIZE\<close> elements, so a
  task of that many outer indices copies more than \<open>GRAIN_SIZE - S\<close> and at most
  \<open>GRAIN_SIZE\<close> elements when the inner sizes sum up to \<open>S\<close>.
\<close>

theorem partition_parameters:
  assumes "0 < t_size result dim * t_stride result dim" and "0 \<le> t_numel result"
    and "0 \<le> GS"
  shows "cat_contig_kernel_impl_memcpy GS sched result tensors dim h =
      Inr (exec (parallel_for sched 0
                   (t_numel result div (t_size result dim * t_stride result dim))
                   (GS div (t_size result dim * t_stride result dim))
                   (loop_nd result tensors dim (t_size result dim * t_stride result dim))) h)
    \<and> cat_contig_kernel_impl_vec W result tensors dim h =
      (case seq_outer W (map (\<lambda>tensor. InputMeta_init tensor dim (t_stride tensor dim)) tensors)
              (t_numel result div (t_size result dim * t_stride result dim))
              0 (t_data_ptr result) of
         Inl e \<Rightarrow> Inl e | Inr ops \<Rightarrow> Inr (exec ops h))
    \<and> GS div (t_size result dim * t_stride result dim) * (t_size result dim * t_stride result dim)
        \<le> GS
    \<and> GS < (GS div (t_size result dim * t_stride result dim) + 1)
               * (t_size result dim * t_stride result dim)
    \<and> (sum_list (map (\<lambda>t. inner_of t dim) tensors) = t_size result dim * t_stride result dim
        \<longrightarrow> sum_list (map elems
              (loop_nd result tensors dim (t_size result dim * t_stride result dim) start
                 (start + GS div (t_size result dim * t_stride result dim))))
            = GS div (t_size result dim * t_stride result dim)
                * (t_size result dim * t_stride result dim))"
proof -
  let ?S = "t_size result dim * t_stride result dim"
  have S': "t_stride result dim * t_size result dim = ?S" by (simp add: mult.commute)
  have q: "cdiv (t_numel result) ?S = Inr (t_numel result div ?S)"
    using assms by (simp add: cdiv_pos)
  have g: "cdiv GS ?S = Inr (GS div ?S)"
    using assms by (simp add: cdiv_pos)
  have a: "cat_contig_kernel_impl_memcpy GS sched result tensors dim h =
      Inr (exec (parallel_for sched 0 (t_numel result div ?S) (GS div ?S)
                   (loop_nd result tensors dim ?S)) h)"
    unfolding cat_contig_kernel_impl_memcpy_def q Let_def S' g by simp
  have b: "cat_contig_kernel_impl_vec W result tensors dim h =
      (case seq_outer W (map (\<lambda>tensor. InputMeta_init tensor dim (t_stride tensor dim)) tensors)
              (t_numel result div ?S) 0 (t_data_ptr result) of
         Inl e \<Rightarrow> Inl e | Inr ops \<Rightarrow> Inr (exec ops h))"
    unfolding cat_contig_kernel_impl_vec_def q Let_def by simp
  have c: "GS div ?S * ?S \<le> GS" and d: "GS < (GS div ?S + 1) * ?S"
    using div_mult_bounds [OF assms(1), of GS] by blast+
  have "0 \<le> GS div ?S" using assms by (simp add: pos_imp_zdiv_nonneg_iff)
  then have e: "sum_list (map elems (loop_nd result tensors dim ?S start (start + GS div ?S)))
      = GS div ?S * offs tensors dim (length tensors)"
    using sum_elems_loop_nd [of start "start + GS div ?S" result tensors dim ?S] by simp
  show ?thesis
    unfolding a b using c d e by (simp add: sum_inner_offs del: mult_eq_0_iff)
qed

theorem partition_parameters_witness:
  "cat_contig_kernel_impl_memcpy 32768 sched_grain exOut [exA, exB] 1 exHeap =
     Inr (exec (parallel_for sched_grain 0 2 8192 (loop_nd exOut [exA, exB] 1 4)) exHeap)
   \<and> (8192::int) * 4 \<le> 32768 \<and> (32768::int) < 8193 * 4"
  using partition_parameters [of exOut 1 32768 sched_grain "[exA, exB]" exHeap 8 0]
  by (simp add: exOut_def contiguous_def)

text \<open>
  C4. The sequential kernel copies each input contribution with the scalar loop when
  \<open>inner_size[j] < W\<close> and with the vector move otherwise. On every run of \<open>n\<close> elements
  whose source does not overlap its destination (no input overlaps the output), and on
  every store, the scalar loop and the vector move leave the same store behind: the one
  \<^verbatim>\<open>memcpy\<close> of \<open>n\<close> elements leaves.
\<close>

theorem scalar_and_vector_paths_agree:
  "fst (seq_inputs W (m # ms) i p) =
     (if inner_size m < W
      then scalar_loop p (data_ptr m + i * inner_size m) (inner_size m) 0
      else vec_map W p (data_ptr m + i * inner_size m) (inner_size m) 0)
     @ fst (seq_inputs W ms i (p + inner_size m))
   \<and> ({s ..< s + n} \<inter> {d ..< d + n} = {} \<longrightarrow>
        exec (scalar_loop d s n 0) h = exec (vec_map W d s n 0) h
        \<and> exec (vec_map W d s n 0) h = exec [Memcpy d s n] h
        \<and> (\<forall>a. exec (scalar_loop d s n 0) h a =
                 (if d \<le> a \<and> a < d + n then h (s + (a - d)) else h a)))"
proof -
  have a: "fst (seq_inputs W (m # ms) i p) =
     (if inner_size m < W
      then scalar_loop p (data_ptr m + i * inner_size m) (inner_size m) 0
      else vec_map W p (data_ptr m + i * inner_size m) (inner_size m) 0)
     @ fst (seq_inputs W ms i (p + inner_size m))"
    unfolding fst_seq_inputs_Cons copy_inner_def ..
  have b: "exec (scalar_loop d s n 0) h = memcpy d s n h"
    and c: "exec (vec_map W d s n 0) h = memcpy d s n h"
    if "{s ..< s + n} \<inter> {d ..< d + n} = {}"
    using that by (simp_all add: exec_scalar_loop exec_vec_map memcpy_def)
  show ?thesis
    unfolding a using b c by (simp add: memcpy_def)
qed

theorem scalar_and_vector_paths_agree_witness:
  "exec (scalar_loop 20 0 3 0) exHeap = exec (vec_map 2 20 0 3 0) exHeap
   \<and> map (exec (scalar_loop 20 0 3 0) exHeap) [19, 20, 21, 22, 23] = [0, 1, 2, 3, 0]
   \<and> vec_map 2 20 0 3 0 = [VecCopy 20 0 2, VecCopy 22 2 1]"
proof -
  have d: "{(0::int) ..< 0 + 3} \<inter> {20 ..< 20 + 3} = {}" by simp
  have t: "exec (scalar_loop 20 0 3 0) exHeap = exec (vec_map 2 20 0 3 0) exHeap
      \<and> exec (vec_map 2 20 0 3 0) exHeap = exec [Memcpy 20 0 3] exHeap
      \<and> (\<forall>a. exec (scalar_loop 20 0 3 0) exHeap a =
                 (if 20 \<le> a \<and> a < 20 + 3 then exHeap (0 + (a - 20)) else exHeap a))"
    using scalar_and_vector_paths_agree
      [of 2 "\<lparr>data_ptr = 0, inner_size = 3\<rparr>" "[]" 0 20 0 3 20 exHeap] d
    by blast
  have v: "vec_map 2 20 0 3 0 = [VecCopy 20 0 2, VecCopy 22 2 1]"
    by (simp add: vec_map.simps)
  from t have "exec (scalar_loop 20 0 3 0) exHeap = exec (vec_map 2 20 0 3 0) exHeap"
    by blast
  moreover from t have f: "\<And>a. exec (scalar_loop 20 0 3 0) exHeap a =
      (if 20 \<le> a \<and> a < 20 + 3 then exHeap (0 + (a - 20)) else exHeap a)"
    by blast
  have "map (exec (scalar_loop 20 0 3 0) exHeap) [19, 20, 21, 22, 23] = [0, 1, 2, 3, 0]"
    unfolding list.map f by (simp add: exHeap_def)
  ultimately show ?thesis using v by blast
qed

text \<open>
  C5 fails on the code. With \<open>2^31\<close> outer groups (an input of \<open>2^31\<close> rows of one
  element, a valid call) the parallel kernel, whose counter is an \<^verbatim>\<open>int64_t\<close>, returns the
  concatenation, while the sequential kernel increments its \<^verbatim>\<open>int\<close> counter past
  \<open>INT_MAX\<close>: the two variants do not compute the same output.
\<close>

theorem sequential_counter_overflow:
  "cat_contig_kernel_impl_vec 8 exBigOut [exBigIn] 1 exHeap = Inl SignedOverflow
   \<and> (\<exists>h'. cat_contig_kernel_impl_memcpy 32768 sched_single exBigOut [exBigIn] 1 exHeap = Inr h'
         \<and> h' 2147483648 = 1 \<and> h' 2147483649 = 2)"
proof -
  have o: "inner_of exBigOut 1 = 1" "t_numel exBigOut = 2147483648"
    "t_data_ptr exBigOut = 2147483648" "inner_of exBigIn 1 = 1" "t_data_ptr exBigIn = 0"
    by (simp_all add: inner_of_def exBigOut_def exBigIn_def contiguous_def)
  have a: "cat_contig_kernel_impl_vec 8 exBigOut [exBigIn] 1 exHeap = Inl SignedOverflow"
    by (rule kernel_vec_overflow) (simp_all add: o INT_MAX_def)
  let ?h' = "exec (loop_nd exBigOut [exBigIn] 1 (inner_of exBigOut 1) 0
                     (t_numel exBigOut div inner_of exBigOut 1)) exHeap"
  have b: "cat_contig_kernel_impl_memcpy 32768 sched_single exBigOut [exBigIn] 1 exHeap = Inr ?h'"
    by (rule kernel_memcpy_partition [OF valid_cat_big partitions_sched_single])
  have "?h' (t_data_ptr exBigOut + 0 * inner_of exBigOut 1 + offs [exBigIn] 1 0 + 0)
      = exHeap (t_data_ptr ([exBigIn] ! 0) + 0 * inner_of ([exBigIn] ! 0) 1 + 0)"
    by (rule exec_loop_nd_at [OF valid_cat_big]) (simp_all add: o)
  then have c: "?h' 2147483648 = 1" by (simp add: o exHeap_def)
  have "?h' (t_data_ptr exBigOut + 1 * inner_of exBigOut 1 + offs [exBigIn] 1 0 + 0)
      = exHeap (t_data_ptr ([exBigIn] ! 0) + 1 * inner_of ([exBigIn] ! 0) 1 + 0)"
    by (rule exec_loop_nd_at [OF valid_cat_big]) (simp_all add: o)
  then have d: "?h' 2147483649 = 2" by (simp add: o exHeap_def)
  from a b c d show ?thesis by blast
qed

text \<open>
  C6. Under the preconditions, the operations a kernel runs write every address of the
  output buffer exactly once and no other address. For the parallel kernel these are the
  operations \<^verbatim>\<open>parallel_for\<close> obtains from \<^verbatim>\<open>loop_nd\<close> on the sub-ranges of a scheduler
  that partitions the outer range; \<^verbatim>\<open>loop_nd\<close> issues one \<^verbatim>\<open>memcpy\<close> per (outer index,
  input index) pair, so no address is written for two pairs and every address of the
  output is written for exactly one. For the sequential kernel they are the operations
  its loops issue, whenever the loops run to their end. The operations \<^verbatim>\<open>loop_nd\<close> issues
  for outer index \<open>i\<close> alone write every address of output group \<open>i\<close> once and nothing
  else; the groups of different outer indices are disjoint. Pair by pair: the copies of
  two different pairs write disjoint ranges, every output address lies in the range of
  exactly one pair, and the sequential kernel's scalar loop or vector move for a pair
  writes the range of the parallel kernel's \<^verbatim>\<open>memcpy\<close> for it. (Addresses count elements;
  a byte of the output belongs to one element.)
\<close>

theorem writes_disjoint_and_covering:
  assumes "valid_cat result tensors dim"
  shows "((partitions sched \<longrightarrow>
          (\<exists>g. cat_contig_kernel_impl_memcpy GS sched result tensors dim h =
                 Inr (exec (parallel_for sched 0 (t_numel result div inner_of result dim) g
                              (loop_nd result tensors dim (inner_of result dim))) h)
             \<and> (\<forall>a. writers (parallel_for sched 0 (t_numel result div inner_of result dim) g
                                  (loop_nd result tensors dim (inner_of result dim))) a
                     = (if t_data_ptr result \<le> a \<and> a < t_data_ptr result + t_numel result
                        then 1 else 0))))
    \<and> cat_contig_kernel_impl_vec W result tensors dim h =
         (case seq_outer W (map (\<lambda>tensor. InputMeta_init tensor dim (t_stride tensor dim)) tensors)
                 (t_numel result div inner_of result dim) 0 (t_data_ptr result) of
            Inl e \<Rightarrow> Inl e | Inr ops \<Rightarrow> Inr (exec ops h))
    \<and> (\<forall>ops a.
          seq_outer W (map (\<lambda>tensor. InputMeta_init tensor dim (t_stride tensor dim)) tensors)
              (t_numel result div inner_of result dim) 0 (t_data_ptr result) = Inr ops \<longrightarrow>
          writers ops a
            = (if t_data_ptr result \<le> a \<and> a < t_data_ptr result + t_numel result then 1 else 0))
    \<and> (t_numel result div inner_of result dim \<le> INT_MAX \<longrightarrow>
          (\<exists>ops. seq_outer W (map (\<lambda>tensor. InputMeta_init tensor dim (t_stride tensor dim)) tensors)
              (t_numel result div inner_of result dim) 0 (t_data_ptr result) = Inr ops))
    \<and> (\<forall>i a. writers (loop_nd result tensors dim (inner_of result dim) i (i + 1)) a
          = (if t_data_ptr result + i * inner_of result dim \<le> a
                \<and> a < t_data_ptr result + i * inner_of result dim + inner_of result dim
             then 1 else 0))
    \<and> (\<forall>s e. loop_nd result tensors dim (inner_of result dim) s e
          = concat (map (\<lambda>i. loop_nd_tensors tensors dim i
                                (t_data_ptr result + i * inner_of result dim)) [s..e - 1]))
    \<and> (\<forall>i p. length (loop_nd_tensors tensors dim i p) = length tensors))
    \<and> ((\<forall>i j i' j'. j < length tensors \<and> j' < length tensors \<and> (i, j) \<noteq> (i', j') \<longrightarrow>
            wr (loop_nd_tensors tensors dim i (t_data_ptr result + i * inner_of result dim) ! j)
            \<inter> wr (loop_nd_tensors tensors dim i' (t_data_ptr result + i' * inner_of result dim) ! j')
            = {})
    \<and> (\<forall>a. t_data_ptr result \<le> a \<and> a < t_data_ptr result + t_numel result \<longrightarrow>
          (\<exists>!p. 0 \<le> fst p \<and> fst p < t_numel result div inner_of result dim
                 \<and> snd p < length tensors
                 \<and> a \<in> wr (loop_nd_tensors tensors dim (fst p)
                              (t_data_ptr result + fst p * inner_of result dim) ! snd p)))
    \<and> (\<forall>x \<in> set (loop_nd result tensors dim (inner_of result dim) 0
                      (t_numel result div inner_of result dim)).
          wr x \<subseteq> {t_data_ptr result ..< t_data_ptr result + t_numel result})
    \<and> (\<forall>i. (\<Union>j<length tensors.
               wr (loop_nd_tensors tensors dim i (t_data_ptr result + i * inner_of result dim) ! j))
            = {t_data_ptr result + i * inner_of result dim
                 ..< t_data_ptr result + i * inner_of result dim + inner_of result dim})
    \<and> (\<forall>i i'. i \<noteq> i' \<longrightarrow>
          {t_data_ptr result + i * inner_of result dim
             ..< t_data_ptr result + i * inner_of result dim + inner_of result dim}
          \<inter> {t_data_ptr result + i' * inner_of result dim
             ..< t_data_ptr result + i' * inner_of result dim + inner_of result dim} = {})
    \<and> (\<forall>i j. j < length tensors \<longrightarrow>
          \<Union> (wr ` set (copy_of W result tensors dim (inner_of result dim) i j))
            = wr (loop_nd_tensors tensors dim i (t_data_ptr result + i * inner_of result dim) ! j)))"
  using writer_counts [OF assms, of sched GS h W] pair_regions [OF assms, of W]
  by (rule conjI)

theorem writes_disjoint_and_covering_witness:
  "(\<exists>g. cat_contig_kernel_impl_memcpy 32768 sched_each_rev exOut [exA, exB] 1 exHeap =
          Inr (exec (parallel_for sched_each_rev 0 2 g (loop_nd exOut [exA, exB] 1 4)) exHeap)
      \<and> writers (parallel_for sched_each_rev 0 2 g (loop_nd exOut [exA, exB] 1 4)) 23 = 1
      \<and> writers (parallel_for sched_each_rev 0 2 g (loop_nd exOut [exA, exB] 1 4)) 28 = 0)
   \<and> (\<exists>ops. seq_outer 8 (map (\<lambda>tensor. InputMeta_init tensor 1 (t_stride tensor 1)) [exA, exB])
               2 0 20 = Inr ops
      \<and> writers ops 23 = 1 \<and> writers ops 19 = 0)
   \<and> writers (loop_nd exOut [exA, exB] 1 4 1 2) 25 = 1
   \<and> writers (loop_nd exOut [exA, exB] 1 4 1 2) 23 = 0
   \<and> wr (loop_nd_tensors [exA, exB] 1 0 (t_data_ptr exOut + 0 * inner_of exOut 1) ! 0)
       \<inter> wr (loop_nd_tensors [exA, exB] 1 1 (t_data_ptr exOut + 1 * inner_of exOut 1) ! 0) = {}
   \<and> (\<Union>j<length [exA, exB].
         wr (loop_nd_tensors [exA, exB] 1 1 (t_data_ptr exOut + 1 * inner_of exOut 1) ! j))
       = {24 ..< 28}"
proof -
  note t = writes_disjoint_and_covering [OF valid_cat_example, of sched_each_rev 32768 exHeap 8]
  note n = t [THEN conjunct1]
  note r = t [THEN conjunct2]
  have o: "t_numel exOut div inner_of exOut 1 = 2" "inner_of exOut 1 = 4" "t_data_ptr exOut = 20"
    "t_numel exOut = 8"
    by (simp_all add: inner_of_def exOut_def contiguous_def)
  from n [THEN conjunct1] partitions_sched_each_rev
  obtain g where g:
    "cat_contig_kernel_impl_memcpy 32768 sched_each_rev exOut [exA, exB] 1 exHeap =
       Inr (exec (parallel_for sched_each_rev 0 (t_numel exOut div inner_of exOut 1) g
                    (loop_nd exOut [exA, exB] 1 (inner_of exOut 1))) exHeap)"
    "\<And>a. writers (parallel_for sched_each_rev 0 (t_numel exOut div inner_of exOut 1) g
                    (loop_nd exOut [exA, exB] 1 (inner_of exOut 1))) a
         = (if t_data_ptr exOut \<le> a \<and> a < t_data_ptr exOut + t_numel exOut then 1 else 0)"
    by blast
  have a: "\<exists>g. cat_contig_kernel_impl_memcpy 32768 sched_each_rev exOut [exA, exB] 1 exHeap =
          Inr (exec (parallel_for sched_each_rev 0 2 g (loop_nd exOut [exA, exB] 1 4)) exHeap)
      \<and> writers (parallel_for sched_each_rev 0 2 g (loop_nd exOut [exA, exB] 1 4)) 23 = 1
      \<and> writers (parallel_for sched_each_rev 0 2 g (loop_nd exOut [exA, exB] 1 4)) 28 = 0"
    using g(1) g(2) [of 23] g(2) [of 28] unfolding o by (intro exI [of _ g]) simp
  from n [THEN conjunct2, THEN conjunct2, THEN conjunct2, THEN conjunct1]
  obtain ops where ops:
    "seq_outer 8 (map (\<lambda>tensor. InputMeta_init tensor 1 (t_stride tensor 1)) [exA, exB])
       (t_numel exOut div inner_of exOut 1) 0 (t_data_ptr exOut) = Inr ops"
    unfolding o by (auto simp: INT_MAX_def)
  from n [THEN conjunct2, THEN conjunct2, THEN conjunct1, rule_format, OF ops]
  have w: "\<And>a. writers ops a
      = (if t_data_ptr exOut \<le> a \<and> a < t_data_ptr exOut + t_numel exOut then 1 else 0)" .
  have b: "\<exists>ops. seq_outer 8 (map (\<lambda>tensor. InputMeta_init tensor 1 (t_stride tensor 1)) [exA, exB])
               2 0 20 = Inr ops
      \<and> writers ops 23 = 1 \<and> writers ops 19 = 0"
    using ops w [of 23] w [of 19] unfolding o by (intro exI [of _ ops]) simp
  note k5 = n [THEN conjunct2, THEN conjunct2, THEN conjunct2, THEN conjunct2, THEN conjunct1,
      rule_format]
  have c: "writers (loop_nd exOut [exA, exB] 1 4 1 2) 25 = 1"
    "writers (loop_nd exOut [exA, exB] 1 4 1 2) 23 = 0"
    using k5 [of 1 25] k5 [of 1 23] unfolding o by simp_all
  have "(0::nat) < length [exA, exB] \<and> (0::nat) < length [exA, exB] \<and> ((0::int), (0::nat)) \<noteq> (1, 0)"
    by simp
  with r [THEN conjunct1, rule_format, of 0 0 0 1]
  have d: "wr (loop_nd_tensors [exA, exB] 1 0 (t_data_ptr exOut + 0 * inner_of exOut 1) ! 0)
     \<inter> wr (loop_nd_tensors [exA, exB] 1 1 (t_data_ptr exOut + 1 * inner_of exOut 1) ! 0) = {}"
    by blast
  from r [THEN conjunct2, THEN conjunct2, THEN conjunct2, THEN conjunct1, rule_format, of 1]
  have "(\<Union>j<length [exA, exB].
         wr (loop_nd_tensors [exA, exB] 1 1 (t_data_ptr exOut + 1 * inner_of exOut 1) ! j))
       = {t_data_ptr exOut + 1 * inner_of exOut 1
            ..< t_data_ptr exOut + 1 * inner_of exOut 1 + inner_of exOut 1}" .
  then have e: "(\<Union>j<length [exA, exB].
         wr (loop_nd_tensors [exA, exB] 1 1 (t_data_ptr exOut + 1 * inner_of exOut 1) ! j))
       = {24 ..< 28}"
    unfolding o by simp
  from a b c d e show ?thesis by blast
qed

text \<open>
  C7 as stated ("a strictly later output offset" for every position \<open>j \<ge> 1\<close>) fails for
  an input that is empty along the axis: with the inputs \<open>[exEmpty, exB]\<close>, a valid call,
  the two contributions of outer group 0 start at the same address.
\<close>

theorem order_preservation_counterexample:
  "valid_cat exOutB [exEmpty, exB] 1
   \<and> \<not> dst_addr (loop_nd_tensors [exEmpty, exB] 1 0 (t_data_ptr exOutB + 0 * 2) ! 0)
         < dst_addr (loop_nd_tensors [exEmpty, exB] 1 0 (t_data_ptr exOutB + 0 * 2) ! 1)"
  by (simp add: valid_cat_def inner_of_def exOutB_def exEmpty_def exB_def contiguous_def)

text \<open>
  C7, amended. Within an outer group the contribution of input \<open>j\<close> starts where the
  contribution of input \<open>j - 1\<close> ends. Its offset is therefore later or equal, and
  strictly later exactly when input \<open>j - 1\<close> contributes at least one element. Every
  address written for input \<open>j\<close> is strictly later than every address written for input
  \<open>j - 1\<close>, by the \<^verbatim>\<open>memcpy\<close> of the parallel kernel and by the scalar loop or vector
  move of the sequential one.
\<close>

theorem order_preservation:
  assumes "\<forall>t \<in> set tensors. 0 \<le> inner_of t dim" and "1 \<le> j" and "j < length tensors"
  shows "dst_addr (loop_nd_tensors tensors dim i p ! j) =
           dst_addr (loop_nd_tensors tensors dim i p ! (j - 1)) + inner_of (tensors ! (j - 1)) dim
    \<and> dst_addr (loop_nd_tensors tensors dim i p ! (j - 1)) \<le> dst_addr (loop_nd_tensors tensors dim i p ! j)
    \<and> (dst_addr (loop_nd_tensors tensors dim i p ! (j - 1)) < dst_addr (loop_nd_tensors tensors dim i p ! j)
         \<longleftrightarrow> 0 < inner_of (tensors ! (j - 1)) dim)
    \<and> (\<forall>a \<in> wr (loop_nd_tensors tensors dim i p ! (j - 1)).
        \<forall>b \<in> wr (loop_nd_tensors tensors dim i p ! j). a < b)
    \<and> (\<forall>a \<in> \<Union> (wr ` set (copy_inner W (p + offs tensors dim (j - 1)) s1
                                  (inner_of (tensors ! (j - 1)) dim))).
        \<forall>b \<in> \<Union> (wr ` set (copy_inner W (p + offs tensors dim j) s2
                                  (inner_of (tensors ! j) dim))). a < b)"
proof -
  obtain k where k: "j = Suc k" using assms(2) by (cases j) simp_all
  with assms(3) have kl: "k < length tensors" by simp
  have o: "offs tensors dim j = offs tensors dim k + inner_of (tensors ! k) dim"
    unfolding k by (rule offs_Suc [OF kl])
  have n: "0 \<le> inner_of (tensors ! k) dim"
    using assms(1) kl by simp
  have a: "loop_nd_tensors tensors dim i p ! j =
      Memcpy (p + offs tensors dim j) (t_data_ptr (tensors ! j) + i * inner_of (tensors ! j) dim)
        (inner_of (tensors ! j) dim)"
    by (rule nth_loop_nd_tensors [OF assms(3)])
  have b: "loop_nd_tensors tensors dim i p ! k =
      Memcpy (p + offs tensors dim k) (t_data_ptr (tensors ! k) + i * inner_of (tensors ! k) dim)
        (inner_of (tensors ! k) dim)"
    by (rule nth_loop_nd_tensors [OF kl])
  have jk: "j - 1 = k" using k by simp
  show ?thesis
    unfolding jk a b wr_copy_inner using o n by auto
qed

theorem order_preservation_witness:
  "dst_addr (loop_nd_tensors [exA, exB] 1 1 24 ! 0) = 24
   \<and> dst_addr (loop_nd_tensors [exA, exB] 1 1 24 ! 1) = 26
   \<and> dst_addr (loop_nd_tensors [exA, exB] 1 1 24 ! 0) < dst_addr (loop_nd_tensors [exA, exB] 1 1 24 ! 1)"
  using order_preservation [of "[exA, exB]" 1 1 1 24 8 2 12]
  by (simp add: inner_of_def exA_def exB_def contiguous_def)

text \<open>
  C8. The kernels are defined for every element type and commute with every function
  applied to the elements of the store: they cannot inspect, compute on, round or convert
  an element, only move it. Under the preconditions every element of the output buffer
  is, bit for bit, an element of one of the input buffers as it was before the call, the
  output buffer is the concatenation of the input runs, and nothing outside the output
  buffer changes. The example runs both kernels on 32-bit patterns of NaNs, infinities,
  \<open>-0.0\<close> and a denormal.
\<close>

theorem raw_bit_copy:
  "cat_contig_kernel_impl_memcpy GS sched result tensors dim (f \<circ> h)
     = map_sum id ((\<circ>) f) (cat_contig_kernel_impl_memcpy GS sched result tensors dim h)
   \<and> cat_contig_kernel_impl_vec W result tensors dim (f \<circ> h)
     = map_sum id ((\<circ>) f) (cat_contig_kernel_impl_vec W result tensors dim h)
   \<and> (valid_cat result tensors dim \<longrightarrow> partitions sched \<longrightarrow>
       (\<exists>h'. cat_contig_kernel_impl_memcpy GS sched result tensors dim h = Inr h'
          \<and> (\<forall>a. t_data_ptr result \<le> a \<and> a < t_data_ptr result + t_numel result \<longrightarrow>
                (\<exists>j s. j < length tensors \<and> t_data_ptr (tensors ! j) \<le> s
                   \<and> s < t_data_ptr (tensors ! j)
                           + t_numel result div inner_of result dim * inner_of (tensors ! j) dim
                   \<and> h' a = h s))
          \<and> (\<forall>a. a \<notin> {t_data_ptr result ..< t_data_ptr result + t_numel result} \<longrightarrow> h' a = h a)
          \<and> run h' (t_data_ptr result) (t_numel result)
               = concat (map (group_of h tensors dim)
                           [0..t_numel result div inner_of result dim - 1])
          \<and> (t_numel result div inner_of result dim \<le> INT_MAX \<longrightarrow>
               cat_contig_kernel_impl_vec W result tensors dim h = Inr h')))"
proof -
  let ?outer = "t_numel result div inner_of result dim"
  let ?h' = "exec (loop_nd result tensors dim (inner_of result dim) 0 ?outer) h"
  have c: "\<exists>h'. cat_contig_kernel_impl_memcpy GS sched result tensors dim h = Inr h'
          \<and> (\<forall>a. t_data_ptr result \<le> a \<and> a < t_data_ptr result + t_numel result \<longrightarrow>
                (\<exists>j s. j < length tensors \<and> t_data_ptr (tensors ! j) \<le> s
                   \<and> s < t_data_ptr (tensors ! j) + ?outer * inner_of (tensors ! j) dim
                   \<and> h' a = h s))
          \<and> (\<forall>a. a \<notin> {t_data_ptr result ..< t_data_ptr result + t_numel result} \<longrightarrow> h' a = h a)
          \<and> run h' (t_data_ptr result) (t_numel result)
               = concat (map (group_of h tensors dim) [0..?outer - 1])
          \<and> (?outer \<le> INT_MAX \<longrightarrow> cat_contig_kernel_impl_vec W result tensors dim h = Inr h')"
    if v: "valid_cat result tensors dim" and p: "partitions sched"
  proof (intro exI [of _ ?h'] conjI allI impI)
    show "cat_contig_kernel_impl_memcpy GS sched result tensors dim h = Inr ?h'"
      by (rule kernel_memcpy_partition [OF v p])
    show "run ?h' (t_data_ptr result) (t_numel result)
        = concat (map (group_of h tensors dim) [0..?outer - 1])"
      by (rule whole_exec_loop_nd [OF v])
    show "cat_contig_kernel_impl_vec W result tensors dim h = Inr ?h'" if "?outer \<le> INT_MAX"
      by (rule kernel_vec_eq [OF v that])
    show "?h' a = h a" if "a \<notin> {t_data_ptr result ..< t_data_ptr result + t_numel result}" for a
      by (rule exec_loop_nd_frame [OF v that])
    show "\<exists>j s. j < length tensors \<and> t_data_ptr (tensors ! j) \<le> s
        \<and> s < t_data_ptr (tensors ! j) + ?outer * inner_of (tensors ! j) dim \<and> ?h' a = h s"
      if "t_data_ptr result \<le> a \<and> a < t_data_ptr result + t_numel result" for a
      using exec_loop_nd_source [OF v, of a h] that by blast
  qed
  show ?thesis
    using kernel_memcpy_natural [of GS sched result tensors dim f h]
      kernel_vec_natural [of W result tensors dim f h] c
    by blast
qed

theorem raw_bit_copy_witness:
  "\<exists>h'. cat_contig_kernel_impl_memcpy 2 sched_grain exOut [exA, exB] 1 exHeapBits = Inr h'
     \<and> run h' 20 8 = [2143289344, 2139095040, 2143289345, 2139095041,
                        4286578688, 2147483648, 1, 1065353216]
     \<and> cat_contig_kernel_impl_vec 8 exOut [exA, exB] 1 exHeapBits = Inr h'"
proof -
  have o: "t_numel exOut div inner_of exOut 1 = 2" "inner_of exOut 1 = 4" "t_data_ptr exOut = 20"
    "t_numel exOut = 8"
    by (simp_all add: inner_of_def exOut_def contiguous_def)
  have g: "group_of exHeapBits [exA, exB] 1 0 = [2143289344, 2139095040, 2143289345, 2139095041]"
    "group_of exHeapBits [exA, exB] 1 1 = [4286578688, 2147483648, 1, 1065353216]"
    by (simp_all add: group_of_def run_def inner_of_def exA_def exB_def contiguous_def
        exHeapBits_def upto_rec1)
  from raw_bit_copy [of 2 sched_grain exOut "[exA, exB]" 1 id exHeapBits 8]
    valid_cat_example partitions_sched_grain
  obtain h' where h':
    "cat_contig_kernel_impl_memcpy 2 sched_grain exOut [exA, exB] 1 exHeapBits = Inr h'"
    "run h' (t_data_ptr exOut) (t_numel exOut)
       = concat (map (group_of exHeapBits [exA, exB] 1)
                   [0..t_numel exOut div inner_of exOut 1 - 1])"
    "t_numel exOut div inner_of exOut 1 \<le> INT_MAX \<longrightarrow>
       cat_contig_kernel_impl_vec 8 exOut [exA, exB] 1 exHeapBits = Inr h'"
    by blast
  from h'(2) g have "run h' 20 8 = [2143289344, 2139095040, 2143289345, 2139095041,
                        4286578688, 2147483648, 1, 1065353216]"
    unfolding o by (simp add: upto_rec1)
  moreover from h'(3) have "cat_contig_kernel_impl_vec 8 exOut [exA, exB] 1 exHeapBits = Inr h'"
    unfolding o by (simp add: INT_MAX_def)
  ultimately show ?thesis using h'(1) by blast
qed

text \<open>
  C9 as stated fails. Zero inputs fill an output of extent zero along the concatenation
  axis, and on that output neither kernel comes back with the store untouched: both
  divide by zero when they compute the outer count. Here the output has shape \<open>[3, 0]\<close>,
  the input list is empty and the axis is 1: the extents along the axis add up, the output
  holds no element, and each kernel ends in a division by zero instead of returning the
  store.
\<close>

theorem empty_input_list_counterexample:
  "sum_list (map (\<lambda>t. t_size t 1) []) = t_size (contiguous [3, 0] 20) 1
   \<and> t_numel (contiguous [3, 0] 20) = 0
   \<and> cat_contig_kernel_impl_memcpy 32768 sched_grain (contiguous [3, 0] 20) [] 1 exHeap
       = Inl DivisionByZero
   \<and> cat_contig_kernel_impl_memcpy 32768 sched_grain (contiguous [3, 0] 20) [] 1 exHeap
       \<noteq> Inr exHeap
   \<and> cat_contig_kernel_impl_vec 8 (contiguous [3, 0] 20) [] 1 exHeap = Inl DivisionByZero
   \<and> cat_contig_kernel_impl_vec 8 (contiguous [3, 0] 20) [] 1 exHeap \<noteq> Inr exHeap"
proof -
  have z: "t_size (contiguous [3, 0] 20) 1 * t_stride (contiguous [3, 0] 20) 1 = 0"
    by (simp add: contiguous_def)
  have a: "cat_contig_kernel_impl_memcpy 32768 sched_grain (contiguous [3, 0] 20) [] 1 exHeap
       = Inl DivisionByZero"
    by (rule kernel_memcpy_zero [OF z])
  have b: "cat_contig_kernel_impl_vec 8 (contiguous [3, 0] 20) [] 1 exHeap = Inl DivisionByZero"
    by (rule kernel_vec_zero [OF z])
  show ?thesis unfolding a b by (simp add: contiguous_def)
qed

text \<open>
  C9, amended. With an empty input list neither kernel issues a memory operation:
  \<^verbatim>\<open>loop_nd\<close> issues none on any sub-range, so \<^verbatim>\<open>parallel_for\<close> collects none under any
  scheduler, and the sequential loops issue none when they run to their end. So whatever
  store a kernel returns is the store it was given. But a kernel returns only when the
  output's extent times stride along the axis is nonzero (the parallel kernel then always,
  the sequential kernel when the outer count fits its \<^verbatim>\<open>int\<close> counter). When the product
  is zero, as it is for every output whose inner size is that of zero inputs, both
  kernels divide by zero (C10); and no call with an empty input list meets the
  preconditions.
\<close>

theorem empty_input_list_noop:
  "cat_contig_kernel_impl_memcpy GS sched result [] dim h =
     (if t_size result dim * t_stride result dim = 0 then Inl DivisionByZero else Inr h)
   \<and> cat_contig_kernel_impl_vec W result [] dim h =
     (case cdiv (t_numel result) (t_size result dim * t_stride result dim) of
        Inl e \<Rightarrow> Inl e
      | Inr outer \<Rightarrow> if INT_MAX < outer then Inl SignedOverflow else Inr h)
   \<and> (\<forall>h'. cat_contig_kernel_impl_memcpy GS sched result [] dim h = Inr h' \<longrightarrow> h' = h)
   \<and> (\<forall>h'. cat_contig_kernel_impl_vec W result [] dim h = Inr h' \<longrightarrow> h' = h)
   \<and> (\<forall>b e g S. parallel_for sched b e g (loop_nd result [] dim S) = [])
   \<and> (\<forall>outer p ops.
         seq_outer W (map (\<lambda>tensor. InputMeta_init tensor dim (t_stride tensor dim)) [])
           outer 0 p = Inr ops \<longrightarrow> ops = [])
   \<and> (inner_of result dim = sum_list (map (\<lambda>t. inner_of t dim) []) \<longrightarrow>
         cat_contig_kernel_impl_memcpy GS sched result [] dim h = Inl DivisionByZero
         \<and> cat_contig_kernel_impl_vec W result [] dim h = Inl DivisionByZero)
   \<and> \<not> valid_cat result [] dim"
proof -
  have b: "cat_contig_kernel_impl_vec W result [] dim h =
     (case cdiv (t_numel result) (t_size result dim * t_stride result dim) of
        Inl e \<Rightarrow> Inl e
      | Inr outer \<Rightarrow> if INT_MAX < outer then Inl SignedOverflow else Inr h)"
    unfolding cat_contig_kernel_impl_vec_def Let_def
    by (simp add: seq_outer_empty split: sum.splits)
  have a: "cat_contig_kernel_impl_memcpy GS sched result [] dim h =
     (if t_size result dim * t_stride result dim = 0 then Inl DivisionByZero else Inr h)"
  proof (cases "t_size result dim * t_stride result dim = 0")
    case True
    then show ?thesis by (simp only: kernel_memcpy_zero if_True refl)
  next
    case False
    obtain q where q: "cdiv (t_numel result) (t_size result dim * t_stride result dim) = Inr q"
      using False cdiv_nonzero by blast
    from False have "t_stride result dim * t_size result dim \<noteq> 0" by (simp add: mult.commute)
    then obtain g where g: "cdiv GS (t_stride result dim * t_size result dim) = Inr g"
      using cdiv_nonzero by blast
    have "cat_contig_kernel_impl_memcpy GS sched result [] dim h = Inr h"
      unfolding cat_contig_kernel_impl_memcpy_def q Let_def g
      by (simp add: parallel_for_def loop_nd_empty concat_map_Nil split_def)
    with False show ?thesis by (simp only: if_False)
  qed
  have c: "\<forall>h'. cat_contig_kernel_impl_memcpy GS sched result [] dim h = Inr h' \<longrightarrow> h' = h"
    unfolding a by (simp split: if_splits)
  have d: "\<forall>h'. cat_contig_kernel_impl_vec W result [] dim h = Inr h' \<longrightarrow> h' = h"
    unfolding b by (simp split: sum.splits if_splits)
  have e: "\<forall>b e g S. parallel_for sched b e g (loop_nd result [] dim S) = []"
    by (simp add: parallel_for_def loop_nd_empty concat_map_Nil split_def)
  have f: "\<forall>outer p ops.
         seq_outer W (map (\<lambda>tensor. InputMeta_init tensor dim (t_stride tensor dim)) [])
           outer 0 p = Inr ops \<longrightarrow> ops = []"
    by (simp add: seq_outer_empty split: if_splits)
  have g: "inner_of result dim = sum_list (map (\<lambda>t. inner_of t dim) []) \<longrightarrow>
         cat_contig_kernel_impl_memcpy GS sched result [] dim h = Inl DivisionByZero
         \<and> cat_contig_kernel_impl_vec W result [] dim h = Inl DivisionByZero"
  proof
    assume "inner_of result dim = sum_list (map (\<lambda>t. inner_of t dim) [])"
    then have z: "t_size result dim * t_stride result dim = 0" by (simp add: inner_of_def)
    show "cat_contig_kernel_impl_memcpy GS sched result [] dim h = Inl DivisionByZero
         \<and> cat_contig_kernel_impl_vec W result [] dim h = Inl DivisionByZero"
      using kernel_memcpy_zero [OF z] kernel_vec_zero [OF z] by (rule conjI)
  qed
  have v: "\<not> valid_cat result [] dim"
    by (simp add: valid_cat_def)
  from a b c d e f g v show ?thesis by blast
qed

theorem empty_input_list_noop_witness:
  "cat_contig_kernel_impl_memcpy 32768 sched_single exOut [] 1 exHeap = Inr exHeap
   \<and> cat_contig_kernel_impl_vec 8 exOut [] 1 exHeap = Inr exHeap
   \<and> cat_contig_kernel_impl_memcpy 32768 sched_single exEmpty [] 1 exHeap = Inl DivisionByZero
   \<and> cat_contig_kernel_impl_vec 8 exEmpty [] 1 exHeap = Inl DivisionByZero
   \<and> inner_of exEmpty 1 = sum_list (map (\<lambda>t. inner_of t 1) [])
   \<and> parallel_for sched_single 0 2 8192 (loop_nd exOut [] 1 4) = []
   \<and> seq_outer 8 (map (\<lambda>tensor. InputMeta_init tensor 1 (t_stride tensor 1)) []) 2 0 20 = Inr []"
proof -
  note t = empty_input_list_noop [of 32768 sched_single exOut 1 exHeap 8]
  note u = empty_input_list_noop [of 32768 sched_single exEmpty 1 exHeap 8]
  have i: "inner_of exEmpty 1 = sum_list (map (\<lambda>t. inner_of t 1) [])"
    by (simp add: inner_of_def exEmpty_def contiguous_def)
  have a: "cat_contig_kernel_impl_memcpy 32768 sched_single exOut [] 1 exHeap = Inr exHeap"
    "cat_contig_kernel_impl_vec 8 exOut [] 1 exHeap = Inr exHeap"
    using t by (simp_all add: exOut_def contiguous_def INT_MAX_def cdiv_def)
  from u i have b:
    "cat_contig_kernel_impl_memcpy 32768 sched_single exEmpty [] 1 exHeap = Inl DivisionByZero"
    "cat_contig_kernel_impl_vec 8 exEmpty [] 1 exHeap = Inl DivisionByZero"
    by blast+
  from t have c: "parallel_for sched_single 0 2 8192 (loop_nd exOut [] 1 4) = []" by blast
  obtain ops where ops:
    "seq_outer 8 (map (\<lambda>tensor. InputMeta_init tensor 1 (t_stride tensor 1)) []) 2 0 20 = Inr ops"
    by (simp add: seq_outer_empty INT_MAX_def)
  with t have "ops = []" by blast
  with ops have d:
    "seq_outer 8 (map (\<lambda>tensor. InputMeta_init tensor 1 (t_stride tensor 1)) []) 2 0 20 = Inr []"
    by simp
  from a b i c d show ?thesis by blast
qed

text \<open>
  C10. Both kernels divide by the output's extent times stride along the concatenation
  axis without a zero test (the parallel one twice: for the outer count and for the grain
  size). A kernel fails with a division by zero exactly when that product is zero, in
  particular when the output is empty along the axis; it can only return when the product
  is nonzero, and the parallel kernel then does return.
\<close>

theorem division_by_zero_unguarded:
  "(cat_contig_kernel_impl_memcpy GS sched result tensors dim h = Inl DivisionByZero
      \<longleftrightarrow> t_size result dim * t_stride result dim = 0)
   \<and> (cat_contig_kernel_impl_vec W result tensors dim h = Inl DivisionByZero
      \<longleftrightarrow> t_size result dim * t_stride result dim = 0)
   \<and> ((\<exists>h'. cat_contig_kernel_impl_memcpy GS sched result tensors dim h = Inr h')
      \<longleftrightarrow> t_size result dim * t_stride result dim \<noteq> 0)
   \<and> ((\<exists>h'. cat_contig_kernel_impl_vec W result tensors dim h = Inr h')
      \<longrightarrow> t_size result dim * t_stride result dim \<noteq> 0)"
proof (cases "t_size result dim * t_stride result dim = 0")
  case True
  have a: "cat_contig_kernel_impl_memcpy GS sched result tensors dim h = Inl DivisionByZero"
    by (rule kernel_memcpy_zero [OF True])
  have b: "cat_contig_kernel_impl_vec W result tensors dim h = Inl DivisionByZero"
    by (rule kernel_vec_zero [OF True])
  show ?thesis unfolding a b using True by simp
next
  case False
  obtain h' where a: "cat_contig_kernel_impl_memcpy GS sched result tensors dim h = Inr h'"
    using kernel_memcpy_nonzero [OF False] by blast
  have b: "cat_contig_kernel_impl_vec W result tensors dim h \<noteq> Inl DivisionByZero"
    by (rule kernel_vec_nonzero [OF False])
  show ?thesis unfolding a using b False by simp
qed

theorem division_by_zero_unguarded_witness:
  "cat_contig_kernel_impl_memcpy 32768 sched_single (contiguous [2, 0] 20) [] 1 exHeap
     = Inl DivisionByZero
   \<and> cat_contig_kernel_impl_vec 8 (contiguous [2, 0] 20) [] 1 exHeap = Inl DivisionByZero
   \<and> (\<exists>h'. cat_contig_kernel_impl_memcpy 32768 sched_single exOut [exA, exB] 1 exHeap = Inr h')"
  using division_by_zero_unguarded [of 32768 sched_single "contiguous [2, 0] 20" "[]" 1 exHeap 8]
    division_by_zero_unguarded [of 32768 sched_single exOut "[exA, exB]" 1 exHeap 8]
  by (simp add: contiguous_def exOut_def)

end
